theory Spec2Isabelle
  imports Main "HOL-Library.Product_Lexorder"
begin

section \<open>Exceptions\<close>

text \<open>
  The exception classes of \<^verbatim>\<open>sanity_check_module.py\<close> that the preprocessing
  pipeline can raise, together with the built-in exceptions that pandas and Python
  raise on the modelled paths (\<^verbatim>\<open>ValueError\<close>, \<^verbatim>\<open>KeyError\<close>,
  \<^verbatim>\<open>AttributeError\<close>). A function that can raise returns \<open>error + 'a\<close>,
  with \<open>Inl\<close> for the exception.
\<close>

datatype error =
    ValueError
  | KeyError
  | AttributeError
  | DateTimeColumnIsDefectiveError
  | DataFileIsDefectiveError
  | FileIsNotCorrectDataFileError
  | FailedToReadCSVError
  | DataFrameIsEmpty
  | DataFrameIsNone
  | DataFrameContainsNans
  | Subject_num_does_not_match_subject_files_path

section \<open>sanity\_check\_module\<close>

subsection \<open>check\_if\_subject\_num\_matches\_subject\_files\_path\<close>

text \<open>Python's \<^verbatim>\<open>str\<close> on an integer: the decimal digits, with a leading minus sign
  for a negative number.\<close>

definition digit_char :: "nat \<Rightarrow> char" where
  "digit_char d = ''0123456789'' ! d"

fun str_nat :: "nat \<Rightarrow> string" where
  "str_nat n = (if n < 10 then [digit_char n] else str_nat (n div 10) @ [digit_char (n mod 10)])"

declare str_nat.simps [simp del]

definition str_int :: "int \<Rightarrow> string" where
  "str_int i = (if i < 0 then CHR ''-'' # str_nat (nat (- i)) else str_nat (nat i))"

text \<open>The slice \<^verbatim>\<open>s[-n:]\<close> for \<open>n > 0\<close>: the last \<open>n\<close> elements, and the whole
  sequence when it is shorter than \<open>n\<close>. For \<open>n = 0\<close> Python reads \<^verbatim>\<open>s[0:]\<close>,
  the whole sequence.\<close>

definition last_slice :: "nat \<Rightarrow> 'a list \<Rightarrow> 'a list" where
  "last_slice n s = (if n = 0 then s else drop (length s - n) s)"

definition check_if_subject_num_matches_subject_files_path :: "int \<Rightarrow> string \<Rightarrow> error + unit" where
  "check_if_subject_num_matches_subject_files_path subject_num subject_files_path =
     (let subject_num_str = str_int subject_num
      in if last_slice (length subject_num_str) subject_files_path \<noteq> subject_num_str
         then Inl Subject_num_does_not_match_subject_files_path
         else Inr ())"

subsection \<open>check\_if\_data\_frame\_is\_valid\<close>

text \<open>
  A DataFrame reference is \<open>None\<close> or a list of rows. The check is used on frames of
  several row types, so the test "this row holds a missing value" is a parameter
  (\<^verbatim>\<open>df.isnull().values.any()\<close> is its disjunction over the rows). The three branches
  are in the order of the source.
\<close>

definition check_if_data_frame_is_valid :: "('r \<Rightarrow> bool) \<Rightarrow> 'r list option \<Rightarrow> error + unit" where
  "check_if_data_frame_is_valid isnull df =
     (case df of
        None \<Rightarrow> Inl DataFrameIsNone
      | Some rows \<Rightarrow>
          if length rows = 0 then Inl DataFrameIsEmpty
          else if list_ex isnull rows then Inl DataFrameContainsNans
          else Inr ())"


subsection \<open>check\_file\_df\_content\<close>

text \<open>
  A batch as \<^verbatim>\<open>pd.read_csv\<close> returns it: the column headers and the rows of cells;
  a cell that is missing (NaN) is \<open>None\<close>. \<^verbatim>\<open>len(df)\<close> is the number of rows.
\<close>

record file_df =
  columns :: "string list"
  cells :: "string option list list"

definition cells_isnull :: "string option list \<Rightarrow> bool" where
  "cells_isnull r = list_ex (\<lambda>c. c = None) r"

text \<open>
  The validity check comes first and its three exceptions are translated; the column
  headers are compared only afterwards. On \<open>None\<close> the validity check has already
  raised, so the attribute access \<^verbatim>\<open>file_df.columns\<close> is never reached with it.
\<close>

definition check_file_df_content :: "file_df option \<Rightarrow> error + unit" where
  "check_file_df_content file_df =
     (case check_if_data_frame_is_valid cells_isnull (map_option cells file_df) of
        Inl DataFrameIsNone \<Rightarrow> Inl FailedToReadCSVError
      | Inl DataFrameIsEmpty \<Rightarrow> Inl DataFileIsDefectiveError
      | Inl DataFrameContainsNans \<Rightarrow> Inl DataFileIsDefectiveError
      | Inl e \<Rightarrow> Inl e
      | Inr u \<Rightarrow>
          (case file_df of
             None \<Rightarrow> Inl AttributeError
           | Some df \<Rightarrow>
               if columns df \<noteq> [''name'', ''time'', ''meas_sig_str'', ''status'']
               then Inl FileIsNotCorrectDataFileError
               else Inr ()))"

section \<open>preprocessing\_module: read\_data\<close>

text \<open>
  The loop of \<^verbatim>\<open>read_data\<close> over the files (lines 39 to 49). The state is the list
  \<^verbatim>\<open>file_dfs\<close> and the file names printed in the warning. Only
  \<^verbatim>\<open>FileIsNotCorrectDataFileError\<close> is caught; every other exception of
  \<^verbatim>\<open>check_file_df_content\<close> leaves the loop and the function.
\<close>

fun read_files ::
  "(string \<times> file_df option) list \<Rightarrow> file_df option list \<times> string list \<Rightarrow>
     error + (file_df option list \<times> string list)" where
  "read_files [] st = Inr st"
| "read_files ((file_name, file_df) # rest) (file_dfs, printed) =
     (case check_file_df_content file_df of
        Inr u \<Rightarrow> read_files rest (file_dfs @ [file_df], printed)
      | Inl FileIsNotCorrectDataFileError \<Rightarrow> read_files rest (file_dfs, printed @ [file_name])
      | Inl e \<Rightarrow> Inl e)"

text \<open>
  \<^verbatim>\<open>pd.concat(file_dfs, ignore_index=True)\<close>: \<open>None\<close> entries are dropped, an empty
  list of objects raises \<^verbatim>\<open>ValueError\<close> ("No objects to concatenate"). The frames that
  reach it passed the column check, so they all have the same four columns and the
  result has the columns of the first and the rows of all, in order.
\<close>

definition pd_concat :: "file_df option list \<Rightarrow> error + file_df" where
  "pd_concat file_dfs =
     (let objs = concat (map (\<lambda>d. case d of None \<Rightarrow> [] | Some df \<Rightarrow> [df]) file_dfs)
      in if objs = [] then Inl ValueError
         else Inr \<lparr>columns = columns (hd objs), cells = concat (map cells objs)\<rparr>)"

text \<open>Lines 39 to 52 of \<^verbatim>\<open>read_data\<close>: the loop, the concatenation and the first
  validation gate, from the frames that \<^verbatim>\<open>pd.read_csv\<close> returned for the files. The
  result is the merged frame and the warnings printed.\<close>

definition read_data_merge :: "(string \<times> file_df option) list \<Rightarrow> error + (file_df \<times> string list)" where
  "read_data_merge files =
     (case read_files files ([], []) of
        Inl e \<Rightarrow> Inl e
      | Inr (file_dfs, printed) \<Rightarrow>
          (case pd_concat file_dfs of
             Inl e \<Rightarrow> Inl e
           | Inr subject_df \<Rightarrow>
               (case check_if_data_frame_is_valid cells_isnull (Some (cells subject_df)) of
                  Inl e \<Rightarrow> Inl e
                | Inr u \<Rightarrow> Inr (subject_df, printed))))"

section \<open>preprocessing\_module: convert\_to\_local\_time\<close>

text \<open>
  A pandas timestamp with a time zone is an absolute instant: here the number of
  seconds since the epoch, an \<open>int\<close>. Localizing a naive UTC reading and converting it
  to another zone leave the instant as it is and change only the wall-clock fields read
  from it, which \<open>hour\<close> and \<open>date_noon\<close> below compute from the zone.

  \<^verbatim>\<open>str.replace\<close> for a pattern of one character.
\<close>

definition replace_char :: "char \<Rightarrow> string \<Rightarrow> string \<Rightarrow> string" where
  "replace_char c s x = concat (map (\<lambda>d. if d = c then s else [d]) x)"

definition strip_letters :: "string \<Rightarrow> string" where
  "strip_letters x = replace_char CHR ''T'' '' '' (replace_char CHR ''Z'' [] x)"

text \<open>
  \<^verbatim>\<open>pd.to_datetime(series, utc=True)\<close>: the parser of one string is pandas', not this
  repository's, and is a parameter \<open>parse\<close>: the instant that the string denotes
  when read as UTC, and \<open>None\<close> where pandas raises \<^verbatim>\<open>ValueError\<close>. The call fails
  as a whole when one element fails. The function then localizes each value to UTC and
  converts it to US/Pacific, which presumes the naive values that the pandas versions
  of its time return for a series; both steps keep the instant.
\<close>

definition to_datetime :: "(string \<Rightarrow> int option) \<Rightarrow> string list \<Rightarrow> error + int list" where
  "to_datetime parse xs =
     (if list_all (\<lambda>x. parse x \<noteq> None) xs
      then Inr (map (\<lambda>x. case parse x of Some t \<Rightarrow> t | None \<Rightarrow> 0) xs)
      else Inl ValueError)"

definition tz_localize_UTC :: "int \<Rightarrow> int" where
  "tz_localize_UTC x = x"

definition tz_convert_US_Pacific :: "int \<Rightarrow> int" where
  "tz_convert_US_Pacific x = x"

definition convert_to_local_time :: "(string \<Rightarrow> int option) \<Rightarrow> string list \<Rightarrow> error + int list" where
  "convert_to_local_time parse time_stamps =
     (let date_time = map strip_letters time_stamps
      in case to_datetime parse date_time of
           Inl ValueError \<Rightarrow> Inl DateTimeColumnIsDefectiveError
         | Inl e \<Rightarrow> Inl e
         | Inr date_time \<Rightarrow> Inr (map tz_convert_US_Pacific (map tz_localize_UTC date_time)))"


section \<open>preprocessing\_module: fill\_missing\_data\<close>

subsection \<open>Frames\<close>

text \<open>
  A row of \<^verbatim>\<open>subject_df\<close> as \<^verbatim>\<open>read_data\<close> returns it: the three columns
  \<^verbatim>\<open>meas_sig_str\<close>, \<^verbatim>\<open>status\<close> and \<^verbatim>\<open>date_time\<close>; NaN and NaT are \<open>None\<close>. The
  signal values are only copied, never computed with, so their type is a parameter.
  A frame indexed by seconds is the list of its rows with their labels, in row order;
  \<^verbatim>\<open>df.loc[label]\<close> is \<open>map_of df label\<close>.
\<close>

record 'v row =
  meas_sig_str :: "'v option"
  status :: "string option"
  date_time :: "int option"

type_synonym 'v frame = "(int \<times> 'v row) list"

definition row_isnull :: "'v row \<Rightarrow> bool" where
  "row_isnull r = (meas_sig_str r = None \<or> status r = None \<or> date_time r = None)"

definition nan_row :: "'v row" where
  "nan_row = \<lparr>meas_sig_str = None, status = None, date_time = None\<rparr>"

text \<open>
  \<^verbatim>\<open>df.loc[labels, column] = values\<close> for labels of the index: \<open>vals\<close> pairs each label
  with its value and \<open>upd\<close> writes the column of one row. Rows with other labels are
  left as they are; the index and the row order never change.
\<close>

definition loc_set :: "('a \<Rightarrow> 'r \<Rightarrow> 'r) \<Rightarrow> (int \<times> 'a) list \<Rightarrow> (int \<times> 'r) list \<Rightarrow> (int \<times> 'r) list" where
  "loc_set upd vals df =
     map (\<lambda>(l, r). (l, case map_of vals l of Some v \<Rightarrow> upd v r | None \<Rightarrow> r)) df"

text \<open>
  \<^verbatim>\<open>series.loc[labels]\<close> with a list of labels. What pandas does with a label that is
  not in the index changed between versions, and the repository pins none: before 1.0
  the lookup reindexes (NaN for an absent label) and raises \<^verbatim>\<open>KeyError\<close> only when no
  label at all is found; from 1.0 on one absent label raises \<^verbatim>\<open>KeyError\<close>. Both are
  modelled.
\<close>

datatype loc_policy = Reindexing | Strict

definition loc_list :: "loc_policy \<Rightarrow> (int \<times> 'a option) list \<Rightarrow> int list \<Rightarrow> error + 'a option list" where
  "loc_list policy series labels =
     (let found = (\<lambda>l. map_of series l \<noteq> None);
          vals = map (\<lambda>l. case map_of series l of Some v \<Rightarrow> v | None \<Rightarrow> None) labels
      in case policy of
           Strict \<Rightarrow> if list_all found labels then Inr vals else Inl KeyError
         | Reindexing \<Rightarrow> if list_ex found labels \<or> labels = [] then Inr vals else Inl KeyError)"

subsection \<open>num\_seconds\<close>

text \<open>
  The time stamps are whole seconds, so \<^verbatim>\<open>int(x.total_seconds())\<close> is the difference
  itself. \<^verbatim>\<open>min\<close> of an empty series raises \<^verbatim>\<open>ValueError\<close>, and so does
  \<^verbatim>\<open>int\<close> of the NaN that a NaT difference gives.
\<close>

definition num_seconds :: "int option list \<Rightarrow> error + int list" where
  "num_seconds pandas_time_stamp =
     (if pandas_time_stamp = [] then Inl ValueError
      else if list_ex (\<lambda>t. t = None) pandas_time_stamp then Inl ValueError
      else let ts = concat (map (\<lambda>t. case t of None \<Rightarrow> [] | Some x \<Rightarrow> [x]) pandas_time_stamp)
           in Inr (map (\<lambda>x. x - Min (set ts)) ts))"

subsection \<open>reindex\<close>

text \<open>
  \<^verbatim>\<open>df.reindex(labels)\<close>: one row per target label, the frame's row where the label
  exists and a row of NaNs where it does not. pandas refuses to reindex from an index
  with duplicates (\<^verbatim>\<open>ValueError\<close>: cannot reindex from a duplicate axis) unless the
  target is empty.
\<close>

definition reindex :: "'v frame \<Rightarrow> int list \<Rightarrow> error + 'v frame" where
  "reindex df target =
     (if \<not> distinct (map fst df) \<and> target \<noteq> [] then Inl ValueError
      else Inr (map (\<lambda>l. (l, case map_of df l of Some r \<Rightarrow> r | None \<Rightarrow> nan_row)) target))"

subsection \<open>fill\_missing\_time\_stamps\<close>

text \<open>Python's built-in \<^verbatim>\<open>min\<close> over a series that holds NaT: it keeps the first
  element and replaces it by a later one that compares smaller; every comparison with
  NaT is false.\<close>

definition py_lt :: "int option \<Rightarrow> int option \<Rightarrow> bool" where
  "py_lt a b = (case a of None \<Rightarrow> False | Some x \<Rightarrow> (case b of None \<Rightarrow> False | Some y \<Rightarrow> x < y))"

definition py_min :: "int option list \<Rightarrow> error + int option" where
  "py_min xs = (case xs of [] \<Rightarrow> Inl ValueError
                | x # rest \<Rightarrow> Inr (foldl (\<lambda>m y. if py_lt y m then y else m) x rest))"

definition fill_missing_time_stamps :: "'v frame \<Rightarrow> int list \<Rightarrow> error + 'v frame" where
  "fill_missing_time_stamps full_subject_df missing_secs =
     (case py_min (map (\<lambda>(l, r). date_time r) full_subject_df) of
        Inl e \<Rightarrow> Inl e
      | Inr first \<Rightarrow>
          let missing_times = map (\<lambda>x. map_option (\<lambda>t. t + x) first) missing_secs
          in Inr (loc_set (\<lambda>v r. r\<lparr>date_time := v\<rparr>) (zip missing_secs missing_times) full_subject_df))"

subsection \<open>fill\_missing\_signal\_values\<close>

text \<open>
  The working frame \<^verbatim>\<open>sig_str_df\<close>: the signal column as it is when the function
  starts (\<^verbatim>\<open>to_frame\<close> builds a new frame from the column) and the columns the
  function adds. \<^verbatim>\<open>newcol\<close> is \<open>- 1000\<close> on the missing seconds and \<open>0\<close> elsewhere.
\<close>

record 'v sig_row =
  sig_meas_sig_str :: "'v option"
  newcol :: int
  block :: nat
  block_length :: nat
  copy_sig :: "'v option"

type_synonym 'v sig_frame = "(int \<times> 'v sig_row) list"

text \<open>
  Lines 235 to 238: the frame with the column \<^verbatim>\<open>newcol\<close> set. (The columns that the
  source adds later are fields of the row from the start, with the value they are
  initialised with; \<^verbatim>\<open>block\<close> is written next.)
\<close>

definition sig_newcol :: "'v frame \<Rightarrow> int list \<Rightarrow> 'v sig_frame" where
  "sig_newcol full_subject_df missing_secs =
     loc_set (\<lambda>v r. r\<lparr>newcol := v\<rparr>) (map (\<lambda>l. (l, - 1000)) missing_secs)
       (map (\<lambda>(l, r). (l, \<lparr>sig_meas_sig_str = meas_sig_str r, newcol = 0, block = 0,
                             block_length = 0, copy_sig = None\<rparr>)) full_subject_df)"

text \<open>
  The column \<^verbatim>\<open>block\<close> is \<^verbatim>\<open>(newcol.shift(1) != newcol).astype(int).cumsum()\<close>.
  \<^verbatim>\<open>shift(1)\<close> moves every value one row down and puts NaN first, which differs
  from every value; the comparison gives 1 at each row whose \<^verbatim>\<open>newcol\<close> differs from
  the row before, and the cumulative sum numbers the runs 1, 2, ...
\<close>

definition shift_1 :: "'a list \<Rightarrow> 'a option list" where
  "shift_1 xs = take (length xs) (None # map Some xs)"

fun cumsum_from :: "nat \<Rightarrow> nat list \<Rightarrow> nat list" where
  "cumsum_from acc [] = []"
| "cumsum_from acc (x # xs) = (acc + x) # cumsum_from (acc + x) xs"

definition cumsum :: "nat list \<Rightarrow> nat list" where
  "cumsum xs = cumsum_from 0 xs"

definition block_column :: "int list \<Rightarrow> nat list" where
  "block_column newcols =
     cumsum (map (\<lambda>(p, c). if p \<noteq> Some c then 1 else 0) (zip (shift_1 newcols) newcols))"

definition sig_str_df_init :: "'v frame \<Rightarrow> int list \<Rightarrow> 'v sig_frame" where
  "sig_str_df_init full_subject_df missing_secs =
     (let sig_str_df = sig_newcol full_subject_df missing_secs
      in map (\<lambda>((l, r), b). (l, r\<lparr>block := b\<rparr>))
           (zip sig_str_df (block_column (map (\<lambda>(l, r). newcol r) sig_str_df))))"

text \<open>
  \<^verbatim>\<open>groupby(['block', 'newcol'])\<close>: one group for each pair of values that occurs, in
  increasing order of the pairs; a group is the key \<open>(i, j)\<close> and the labels of the
  rows that have it, in row order (\<^verbatim>\<open>group.index\<close>; \<^verbatim>\<open>group.shape[0]\<close> is their
  number).
\<close>

definition groupby_block_newcol :: "'v sig_frame \<Rightarrow> ((nat \<times> int) \<times> int list) list" where
  "groupby_block_newcol df =
     map (\<lambda>k. (k, map fst (filter (\<lambda>(l, r). (block r, newcol r) = k) df)))
       (sorted_list_of_set (set (map (\<lambda>(l, r). (block r, newcol r)) df)))"

text \<open>
  The body of the loop over the groups, for one group. The state is
  \<^verbatim>\<open>sig_str_df\<close> and \<^verbatim>\<open>full_subject_df\<close>. The last assignment, inside the branch for
  a block of at most \<open>5 * 60\<close> rows, writes the \<^verbatim>\<open>copy_sig\<close> of all missing seconds,
  not only of this block. (\<^verbatim>\<open>missing_seg_length\<close> is never read and is left out.)
\<close>

definition fill_block ::
  "loc_policy \<Rightarrow> int list \<Rightarrow> 'v sig_frame \<times> 'v frame \<Rightarrow> (nat \<times> int) \<times> int list \<Rightarrow>
     error + ('v sig_frame \<times> 'v frame)" where
  "fill_block policy missing_secs st g =
     (let sig_str_df = fst st; full_subject_df = snd st;
          j = snd (fst g); missing_block_inds = snd g
      in if j = - 1000 then
           (let n = length missing_block_inds;
                sig1 = loc_set (\<lambda>v r. r\<lparr>block_length := v\<rparr>)
                         (map (\<lambda>l. (l, n)) missing_block_inds) sig_str_df
            in if n \<le> 5 * 60 then
                 (let shape_filler_ind = map (\<lambda>l. l - int n) missing_block_inds
                  in case loc_list policy (map (\<lambda>(l, r). (l, sig_meas_sig_str r)) sig1)
                            shape_filler_ind of
                       Inl e \<Rightarrow> Inl e
                     | Inr filler \<Rightarrow>
                         (let sig2 = loc_set (\<lambda>v r. r\<lparr>copy_sig := v\<rparr>)
                                       (zip missing_block_inds filler) sig1
                          in (case loc_list policy (map (\<lambda>(l, r). (l, copy_sig r)) sig2)
                                     missing_secs of
                                Inl e \<Rightarrow> Inl e
                              | Inr copied \<Rightarrow>
                                  Inr (sig2, loc_set (\<lambda>v r. r\<lparr>meas_sig_str := v\<rparr>)
                                               (zip missing_secs copied) full_subject_df))))
               else Inr (sig1, full_subject_df))
         else Inr (sig_str_df, full_subject_df))"

fun fill_blocks ::
  "loc_policy \<Rightarrow> int list \<Rightarrow> ((nat \<times> int) \<times> int list) list \<Rightarrow>
     'v sig_frame \<times> 'v frame \<Rightarrow> error + ('v sig_frame \<times> 'v frame)" where
  "fill_blocks policy missing_secs [] st = Inr st"
| "fill_blocks policy missing_secs (g # gs) st =
     (case fill_block policy missing_secs st g of
        Inl e \<Rightarrow> Inl e
      | Inr st' \<Rightarrow> fill_blocks policy missing_secs gs st')"

definition fill_missing_signal_values :: "loc_policy \<Rightarrow> 'v frame \<Rightarrow> int list \<Rightarrow> error + 'v frame" where
  "fill_missing_signal_values policy full_subject_df missing_secs =
     (let sig_str_df = sig_str_df_init full_subject_df missing_secs
      in case fill_blocks policy missing_secs (groupby_block_newcol sig_str_df)
                (sig_str_df, full_subject_df) of
           Inl e \<Rightarrow> Inl e
         | Inr (sig_final, full_final) \<Rightarrow> Inr full_final)"

subsection \<open>fill\_missing\_data\<close>

text \<open>
  Lines 180 to 186, the check at the end of \<^verbatim>\<open>fill_missing_data\<close>:
  \<^verbatim>\<open>DataFrameContainsNans\<close> is caught and passed over, the other two exceptions of the
  validity check leave the function.
\<close>

definition check_filled :: "'v frame \<Rightarrow> error + 'v frame" where
  "check_filled full_subject_df =
     (case check_if_data_frame_is_valid row_isnull (Some (map snd full_subject_df)) of
        Inl DataFrameContainsNans \<Rightarrow> Inr full_subject_df
      | Inl e \<Rightarrow> Inl e
      | Inr u \<Rightarrow> Inr full_subject_df)"

text \<open>
  \<^verbatim>\<open>continuous_secs\<close> is \<^verbatim>\<open>set(range(0, max(subject_df.index)))\<close>; the frame is
  reindexed to it in increasing order. When no second is missing the function returns
  \<^verbatim>\<open>subject_df\<close> itself, not the reindexed frame.
\<close>

definition fill_missing_data :: "loc_policy \<Rightarrow> 'v row list \<Rightarrow> error + 'v frame" where
  "fill_missing_data policy subject_rows =
     (case num_seconds (map date_time subject_rows) of
        Inl e \<Rightarrow> Inl e
      | Inr secs \<Rightarrow>
          (let subject_df = zip secs subject_rows;
               continuous_secs = map int [0..<nat (Max (set (map fst subject_df)))]
           in (case reindex subject_df continuous_secs of
                 Inl e \<Rightarrow> Inl e
               | Inr full_subject_df \<Rightarrow>
                   (let missing_secs = filter (\<lambda>s. s \<notin> set secs) continuous_secs;
                        filled =
                          (if length missing_secs = 0 then Inr subject_df
                           else (case fill_missing_time_stamps full_subject_df missing_secs of
                                   Inl e \<Rightarrow> Inl e
                                 | Inr stamped \<Rightarrow>
                                     fill_missing_signal_values policy stamped missing_secs))
                    in (case filled of
                          Inl e \<Rightarrow> Inl e
                        | Inr full_subject_df \<Rightarrow> check_filled full_subject_df)))))"

section \<open>preprocessing\_module: divide\_to\_24\_hour\_periods\<close>

text \<open>
  The rules of the zone US/Pacific come from the time zone database, which is not part
  of the repository: a zone is a parameter, given by the offset of local time from UTC
  at an instant (in seconds) and by the instant of a naive wall-clock time
  (\<^verbatim>\<open>tz_localize\<close>). \<open>pst\<close> is the zone with the fixed offset of Pacific Standard
  Time, eight hours behind UTC.
\<close>

record zone =
  utcoffset :: "int \<Rightarrow> int"
  tz_localize :: "int \<Rightarrow> int"

definition pst :: zone where
  "pst = \<lparr>utcoffset = (\<lambda>t. - 28800), tz_localize = (\<lambda>w. w + 28800)\<rparr>"

text \<open>The local hour of an instant, and \<^verbatim>\<open>pd.to_datetime(str(t.date()) + ' 12:00:00')\<close>:
  noon of the local calendar date of \<open>t\<close> as a naive wall-clock time.\<close>

definition hour :: "zone \<Rightarrow> int \<Rightarrow> int" where
  "hour z t = ((t + utcoffset z t) mod 86400) div 3600"

definition date_noon :: "zone \<Rightarrow> int \<Rightarrow> int" where
  "date_noon z t = ((t + utcoffset z t) div 86400) * 86400 + 12 * 3600"

definition first_noon :: "zone \<Rightarrow> int \<Rightarrow> int" where
  "first_noon z t =
     tz_localize z (if hour z t < 12 then date_noon z t else date_noon z t + 24 * 3600)"

text \<open>The \<^verbatim>\<open>while\<close> loop: it returns the list of onsets and the last value of
  \<^verbatim>\<open>next_day_onset\<close>.\<close>

function day_onsets_loop :: "int \<Rightarrow> int \<Rightarrow> int list \<Rightarrow> int list \<times> int" where
  "day_onsets_loop end_of_time next_day_onset day_onsets =
     (if next_day_onset < end_of_time
      then day_onsets_loop end_of_time (next_day_onset + 24 * 3600) (day_onsets @ [next_day_onset])
      else (day_onsets, next_day_onset))"
  by pat_completeness auto
termination
  by (relation "measure (\<lambda>(e, n, ds). nat (e - n))") auto

declare day_onsets_loop.simps [simp del]

text \<open>
  Lines 284 to 297. \<^verbatim>\<open>date_time[0]\<close> and \<^verbatim>\<open>date_time[len(date_time) - 1]\<close> look
  labels up (\<^verbatim>\<open>KeyError\<close> when absent). A NaT at label 0 has no date
  (\<^verbatim>\<open>ValueError\<close>); against a NaT at the last label every comparison is false, so the
  loop body never runs.
\<close>

definition find_day_onsets :: "zone \<Rightarrow> 'v frame \<Rightarrow> error + (int list \<times> int)" where
  "find_day_onsets z full_subject_df =
     (case map_of full_subject_df 0 of
        None \<Rightarrow> Inl KeyError
      | Some first_row \<Rightarrow>
          (case map_of full_subject_df (int (length full_subject_df) - 1) of
             None \<Rightarrow> Inl KeyError
           | Some last_row \<Rightarrow>
               (case date_time first_row of
                  None \<Rightarrow> Inl ValueError
                | Some start \<Rightarrow>
                    (case date_time last_row of
                       None \<Rightarrow> Inr ([start], first_noon z start)
                     | Some end_of_time \<Rightarrow>
                         Inr (day_onsets_loop end_of_time (first_noon z start) [start])))))"

text \<open>One round of the \<^verbatim>\<open>for\<close> loop: the rows in the mask get day \<open>d + 1\<close>, the
  others keep what they have. A NaT is in no mask.\<close>

definition assign_day ::
  "int list \<Rightarrow> int \<Rightarrow> int option list \<Rightarrow> nat option list \<Rightarrow> nat \<Rightarrow> nat option list" where
  "assign_day day_onsets next_day_onset date_times day_nums d =
     (let tomorrow = (if d + 1 < length day_onsets - 1 then day_onsets ! (d + 1)
                      else next_day_onset)
      in map (\<lambda>(t, n). case t of
                None \<Rightarrow> n
              | Some x \<Rightarrow> if day_onsets ! d \<le> x \<and> x < tomorrow then Some (d + 1) else n)
           (zip date_times day_nums))"

text \<open>The result pairs every row with its entry of the new column \<^verbatim>\<open>num_days\<close>;
  \<open>None\<close> is the NaN the column is initialised with.\<close>

definition divide_to_24_hour_periods ::
  "zone \<Rightarrow> 'v frame \<Rightarrow> error + ((int \<times> 'v row) \<times> nat option) list" where
  "divide_to_24_hour_periods z full_subject_df =
     (case find_day_onsets z full_subject_df of
        Inl e \<Rightarrow> Inl e
      | Inr (onsets, next_day_onset) \<Rightarrow>
          Inr (zip full_subject_df
                 (foldl (assign_day onsets next_day_onset (map (\<lambda>(l, r). date_time r) full_subject_df))
                    (replicate (length full_subject_df) None)
                    [0..<length onsets])))"

section \<open>Observations used in the statements\<close>

text \<open>The signal value a frame holds at a label: \<open>None\<close> for NaN, and for a label the
  frame does not have. \<open>copy_at\<close> and \<open>source_at\<close> read the columns \<^verbatim>\<open>copy_sig\<close>
  and \<^verbatim>\<open>meas_sig_str\<close> of \<^verbatim>\<open>sig_str_df\<close> in the same way.\<close>

definition signal_at :: "'v frame \<Rightarrow> int \<Rightarrow> 'v option" where
  "signal_at df l = (case map_of df l of None \<Rightarrow> None | Some r \<Rightarrow> meas_sig_str r)"

definition copy_at :: "'v sig_frame \<Rightarrow> int \<Rightarrow> 'v option" where
  "copy_at df l = (case map_of df l of None \<Rightarrow> None | Some r \<Rightarrow> copy_sig r)"

definition source_at :: "'v sig_frame \<Rightarrow> int \<Rightarrow> 'v option" where
  "source_at df l = (case map_of df l of None \<Rightarrow> None | Some r \<Rightarrow> sig_meas_sig_str r)"

text \<open>
  The maximal runs of rows with equal \<^verbatim>\<open>newcol\<close>, in row order, each with its
  \<^verbatim>\<open>newcol\<close> value and the labels of its rows: the blocks of the timeline.
  \<open>groupby_runs\<close> below shows that these are the groups of
  \<open>groupby_block_newcol\<close>.
\<close>

fun block_groups :: "'v sig_frame \<Rightarrow> (int \<times> int list) list" where
  "block_groups [] = []"
| "block_groups ((l, r) # rest) =
     (case block_groups rest of
        [] \<Rightarrow> [(newcol r, [l])]
      | (j, ls) # gs \<Rightarrow>
          if j = newcol r then (j, l # ls) # gs else (newcol r, [l]) # (j, ls) # gs)"

text \<open>
  A list of keys \<open>(block, newcol)\<close> is numbered from \<open>acc\<close> after a row with
  \<^verbatim>\<open>newcol\<close> \<open>prev\<close> when each block number is the number before it, plus one where
  \<^verbatim>\<open>newcol\<close> changes.
\<close>

fun numbered :: "nat \<Rightarrow> int option \<Rightarrow> (nat \<times> int) list \<Rightarrow> bool" where
  "numbered acc prev [] = True"
| "numbered acc prev ((b, c) # ks) =
     (b = acc + (if prev \<noteq> Some c then 1 else 0) \<and> numbered b (Some c) ks)"

text \<open>
  The form that the docstring of \<^verbatim>\<open>convert_to_local_time\<close> gives for a time stamp,
  \<^verbatim>\<open>yyyy-mm-ddThh:mm:ssZ\<close>: in the pattern \<open>d\<close> stands for a decimal digit and
  every other character for itself.
\<close>

definition is_digit :: "char \<Rightarrow> bool" where
  "is_digit c = (c \<in> set ''0123456789'')"



text \<open>The two checks of \<^verbatim>\<open>check_file_df_content\<close> on a batch, each on its own: the
  validity check, and the comparison of the column headers.\<close>

definition valid_batch :: "file_df option \<Rightarrow> bool" where
  "valid_batch file_df =
     (check_if_data_frame_is_valid cells_isnull (map_option cells file_df) = Inr ())"

definition expected_columns :: "file_df option \<Rightarrow> bool" where
  "expected_columns file_df =
     (case file_df of
        None \<Rightarrow> False
      | Some df \<Rightarrow> columns df = [''name'', ''time'', ''meas_sig_str'', ''status''])"

section \<open>The path guard\<close>

lemma str_nat_nonempty: "str_nat n \<noteq> []"
  by (subst str_nat.simps) simp

lemma str_int_nonempty: "str_int n \<noteq> []"
  by (simp add: str_int_def str_nat_nonempty)

lemma last_slice_suffix:
  "s \<noteq> [] \<Longrightarrow> (last_slice (length s) path = s) = (\<exists>p. path = p @ s)"
proof
  assume ne: "s \<noteq> []" and eq: "last_slice (length s) path = s"
  from ne eq have d: "drop (length path - length s) path = s"
    by (simp add: last_slice_def)
  have "path = take (length path - length s) path @ drop (length path - length s) path"
    by simp
  with d show "\<exists>p. path = p @ s" by metis
next
  assume "s \<noteq> []" and "\<exists>p. path = p @ s"
  then show "last_slice (length s) path = s"
    by (auto simp: last_slice_def)
qed

text \<open>
  Claim C10. The guard accepts a path exactly when the path ends with the decimal
  digits of the subject number, whatever stands before them: with subject number 2 the
  directory of subject 12 is accepted.
\<close>

theorem subject_path_check_accepts_suffix:
  "(check_if_subject_num_matches_subject_files_path subject_num path = Inr ()) =
     (\<exists>p. path = p @ str_int subject_num)"
  using last_slice_suffix [OF str_int_nonempty, of subject_num path]
  by (auto simp: check_if_subject_num_matches_subject_files_path_def Let_def)

theorem subject_path_check_accepts_suffix_witness:
  "check_if_subject_num_matches_subject_files_path 2 ''../data/Subject12'' = Inr ()"
proof -
  have "str_int 2 = ''2''"
    by (simp add: str_int_def str_nat.simps digit_char_def)
  then have "''../data/Subject12'' = ''../data/Subject1'' @ str_int 2"
    by simp
  then show ?thesis
    using subject_path_check_accepts_suffix [of 2 "''../data/Subject12''"] by blast
qed

section \<open>The loader\<close>

lemma check_file_df_content_cases:
  "check_file_df_content d = Inr () \<or>
   check_file_df_content d = Inl FileIsNotCorrectDataFileError \<or>
   check_file_df_content d = Inl FailedToReadCSVError \<or>
   check_file_df_content d = Inl DataFileIsDefectiveError"
  by (cases d) (auto simp: check_file_df_content_def check_if_data_frame_is_valid_def)

lemma check_ok: "valid_batch d \<Longrightarrow> expected_columns d \<Longrightarrow> check_file_df_content d = Inr ()"
  by (cases d) (auto simp: valid_batch_def expected_columns_def check_file_df_content_def
      check_if_data_frame_is_valid_def split: if_splits)

lemma check_columns:
  "valid_batch d \<Longrightarrow> \<not> expected_columns d \<Longrightarrow>
     check_file_df_content d = Inl FileIsNotCorrectDataFileError"
  by (cases d) (auto simp: valid_batch_def expected_columns_def check_file_df_content_def
      check_if_data_frame_is_valid_def split: if_splits)

lemma check_invalid:
  "\<not> valid_batch d \<Longrightarrow>
     check_file_df_content d = Inl FailedToReadCSVError \<or>
     check_file_df_content d = Inl DataFileIsDefectiveError"
  by (cases d) (auto simp: valid_batch_def check_file_df_content_def
      check_if_data_frame_is_valid_def split: if_splits)

lemma read_files_valid:
  "list_all (\<lambda>f. valid_batch (snd f)) files \<Longrightarrow>
   read_files files (file_dfs, printed) =
     Inr (file_dfs @ map snd (filter (\<lambda>f. expected_columns (snd f)) files),
          printed @ map fst (filter (\<lambda>f. \<not> expected_columns (snd f)) files))"
proof (induction files arbitrary: file_dfs printed)
  case Nil
  then show ?case by simp
next
  case (Cons f files)
  obtain name d where f: "f = (name, d)" by (cases f)
  from Cons.prems f have v: "valid_batch d" and rest: "list_all (\<lambda>f. valid_batch (snd f)) files"
    by simp_all
  show ?case
  proof (cases "expected_columns d")
    case True
    have "check_file_df_content d = Inr ()" by (rule check_ok [OF v True])
    with True f show ?thesis by (simp add: Cons.IH [OF rest])
  next
    case False
    have "check_file_df_content d = Inl FileIsNotCorrectDataFileError"
      by (rule check_columns [OF v False])
    with False f show ?thesis by (simp add: Cons.IH [OF rest])
  qed
qed

lemma read_files_invalid:
  "list_ex (\<lambda>f. \<not> valid_batch (snd f)) files \<Longrightarrow>
   read_files files (file_dfs, printed) = Inl FailedToReadCSVError \<or>
   read_files files (file_dfs, printed) = Inl DataFileIsDefectiveError"
proof (induction files arbitrary: file_dfs printed)
  case Nil
  then show ?case by simp
next
  case (Cons f files)
  obtain name d where f: "f = (name, d)" by (cases f)
  show ?case
  proof (cases "valid_batch d")
    case False
    from check_invalid [OF False] f show ?thesis by auto
  next
    case v: True
    with Cons.prems f have rest: "list_ex (\<lambda>f. \<not> valid_batch (snd f)) files" by simp
    show ?thesis
    proof (cases "expected_columns d")
      case c: True
      have "check_file_df_content d = Inr ()" by (rule check_ok [OF v c])
      with f show ?thesis using Cons.IH [OF rest] by simp
    next
      case c: False
      have "check_file_df_content d = Inl FileIsNotCorrectDataFileError"
        by (rule check_columns [OF v c])
      with f show ?thesis using Cons.IH [OF rest] by simp
    qed
  qed
qed

lemma pd_concat_survivors:
  assumes "list_all (\<lambda>f. valid_batch (snd f)) files"
    and "list_ex (\<lambda>f. expected_columns (snd f)) files"
  shows "\<exists>subject_df.
           pd_concat (map snd (filter (\<lambda>f. expected_columns (snd f)) files)) = Inr subject_df \<and>
           cells subject_df =
             concat (map (\<lambda>f. case snd f of None \<Rightarrow> [] | Some df \<Rightarrow> cells df)
                       (filter (\<lambda>f. expected_columns (snd f)) files)) \<and>
           check_if_data_frame_is_valid cells_isnull (Some (cells subject_df)) = Inr ()"
proof -
  let ?keep = "filter (\<lambda>f. expected_columns (snd f)) files"
  let ?objs = "concat (map (\<lambda>d. case d of None \<Rightarrow> [] | Some df \<Rightarrow> [df]) (map snd ?keep))"
  let ?rows = "concat (map (\<lambda>f. case snd f of None \<Rightarrow> [] | Some df \<Rightarrow> cells df) ?keep)"
  have rows: "concat (map cells ?objs) = ?rows"
    by (induction files) (auto split: option.splits)
  from assms(2) obtain name d where f: "(name, d) \<in> set files" "expected_columns d"
    by (auto simp: list_ex_iff)
  then obtain df where df: "d = Some df"
    by (cases d) (auto simp: expected_columns_def)
  from f df have keep: "(name, Some df) \<in> set ?keep" by simp
  then have "df \<in> set ?objs" by force
  then have ne: "?objs \<noteq> []" by (metis empty_iff list.set(1))
  from assms(1) f df have "valid_batch (Some df)" by (auto simp: list_all_iff)
  then have "cells df \<noteq> []"
    by (auto simp: valid_batch_def check_if_data_frame_is_valid_def split: if_splits)
  with keep have "hd (cells df) \<in> set ?rows" by force
  then have rne: "?rows \<noteq> []" by (metis empty_iff list.set(1))
  have nonull: "\<not> list_ex cells_isnull ?rows"
  proof
    assume "list_ex cells_isnull ?rows"
    then obtain r g where g: "g \<in> set files" and r: "r \<in> set (case snd g of None \<Rightarrow> [] | Some df \<Rightarrow> cells df)"
      and n: "cells_isnull r"
      by (auto simp: list_ex_iff)
    from r obtain dg where dg: "snd g = Some dg" "r \<in> set (cells dg)"
      by (cases "snd g") auto
    from assms(1) g dg have "valid_batch (Some dg)" by (auto simp: list_all_iff)
    with dg n show False
      by (auto simp: valid_batch_def check_if_data_frame_is_valid_def list_ex_iff split: if_splits)
  qed
  from ne have "pd_concat (map snd ?keep) = Inr \<lparr>columns = columns (hd ?objs), cells = concat (map cells ?objs)\<rparr>"
    by (simp add: pd_concat_def Let_def)
  with rows rne nonull show ?thesis
    by (simp add: check_if_data_frame_is_valid_def)
qed

text \<open>
  Claim C7, as amended. A batch that passes the validity check and has other column
  headers than the expected four is left out with a warning, and the run goes on with
  the batches that are left. A batch that fails the validity check (no frame, no rows,
  or a missing value) ends the run with \<^verbatim>\<open>FailedToReadCSVError\<close> or
  \<^verbatim>\<open>DataFileIsDefectiveError\<close>. When every batch is left out, the run ends at the
  concatenation with \<^verbatim>\<open>ValueError\<close>; the empty-frame check on the merged result is
  never reached.
\<close>

theorem column_failures_dropped_validity_failures_fatal:
  "(list_all (\<lambda>f. valid_batch (snd f)) files \<and> list_ex (\<lambda>f. expected_columns (snd f)) files \<longrightarrow>
      (\<exists>subject_df.
         read_data_merge files =
           Inr (subject_df, map fst (filter (\<lambda>f. \<not> expected_columns (snd f)) files)) \<and>
         cells subject_df =
           concat (map (\<lambda>f. case snd f of None \<Rightarrow> [] | Some df \<Rightarrow> cells df)
                     (filter (\<lambda>f. expected_columns (snd f)) files)))) \<and>
   (list_ex (\<lambda>f. \<not> valid_batch (snd f)) files \<longrightarrow>
      read_data_merge files = Inl FailedToReadCSVError \<or>
      read_data_merge files = Inl DataFileIsDefectiveError) \<and>
   (list_all (\<lambda>f. valid_batch (snd f) \<and> \<not> expected_columns (snd f)) files \<longrightarrow>
      read_data_merge files = Inl ValueError)"
proof (intro conjI impI)
  assume a: "list_all (\<lambda>f. valid_batch (snd f)) files \<and> list_ex (\<lambda>f. expected_columns (snd f)) files"
  then have r: "read_files files ([], []) =
      Inr (map snd (filter (\<lambda>f. expected_columns (snd f)) files),
           map fst (filter (\<lambda>f. \<not> expected_columns (snd f)) files))"
    using read_files_valid [of files "[]" "[]"] by simp
  from a pd_concat_survivors [of files] obtain subject_df where
    "pd_concat (map snd (filter (\<lambda>f. expected_columns (snd f)) files)) = Inr subject_df"
    "cells subject_df =
       concat (map (\<lambda>f. case snd f of None \<Rightarrow> [] | Some df \<Rightarrow> cells df)
                 (filter (\<lambda>f. expected_columns (snd f)) files))"
    "check_if_data_frame_is_valid cells_isnull (Some (cells subject_df)) = Inr ()"
    by blast
  with r show "\<exists>subject_df.
         read_data_merge files =
           Inr (subject_df, map fst (filter (\<lambda>f. \<not> expected_columns (snd f)) files)) \<and>
         cells subject_df =
           concat (map (\<lambda>f. case snd f of None \<Rightarrow> [] | Some df \<Rightarrow> cells df)
                     (filter (\<lambda>f. expected_columns (snd f)) files))"
    by (simp add: read_data_merge_def)
next
  assume "list_ex (\<lambda>f. \<not> valid_batch (snd f)) files"
  from read_files_invalid [OF this, of "[]" "[]"]
  show "read_data_merge files = Inl FailedToReadCSVError \<or>
        read_data_merge files = Inl DataFileIsDefectiveError"
    by (auto simp: read_data_merge_def)
next
  assume a: "list_all (\<lambda>f. valid_batch (snd f) \<and> \<not> expected_columns (snd f)) files"
  then have v: "list_all (\<lambda>f. valid_batch (snd f)) files" by (simp add: list_all_iff)
  from a have "filter (\<lambda>f. expected_columns (snd f)) files = []"
    by (induction files) auto
  with read_files_valid [OF v, of "[]" "[]"] show "read_data_merge files = Inl ValueError"
    by (simp add: read_data_merge_def pd_concat_def)
qed


text \<open>
  The claim as stated fails: of two batches, the first passes both checks and the second
  is empty. The empty batch is not dropped; the run ends with
  \<^verbatim>\<open>DataFileIsDefectiveError\<close> although a batch survives. And when the only batch
  has a fifth column, no batch survives and the run ends with \<^verbatim>\<open>ValueError\<close>, not
  with \<^verbatim>\<open>DataFrameIsEmpty\<close>.
\<close>

theorem validity_failure_aborts_despite_survivor:
  "check_file_df_content
     (Some \<lparr>columns = [''name'', ''time'', ''meas_sig_str'', ''status''],
            cells = [[Some ''s1'', Some ''2017-05-25T23:59:59Z'', Some ''1.5'', Some ''ok'']]\<rparr>) = Inr ()
   \<and> check_file_df_content
     (Some \<lparr>columns = [''name'', ''time'', ''meas_sig_str'', ''status''], cells = []\<rparr>) =
       Inl DataFileIsDefectiveError
   \<and> read_data_merge
     [(''a.csv'', Some \<lparr>columns = [''name'', ''time'', ''meas_sig_str'', ''status''],
            cells = [[Some ''s1'', Some ''2017-05-25T23:59:59Z'', Some ''1.5'', Some ''ok'']]\<rparr>),
      (''b.csv'', Some \<lparr>columns = [''name'', ''time'', ''meas_sig_str'', ''status''], cells = []\<rparr>)] =
       Inl DataFileIsDefectiveError
   \<and> read_data_merge
     [(''c.csv'', Some \<lparr>columns = [''name'', ''time'', ''meas_sig_str'', ''status'', ''extra''],
            cells = [[Some ''s1'', Some ''2017-05-26T00:00:00Z'', Some ''1.6'', Some ''ok'', Some ''x'']]\<rparr>)] =
       Inl ValueError"
  by code_simp

theorem column_failures_dropped_validity_failures_fatal_witness:
  "read_data_merge
     [(''a.csv'', Some \<lparr>columns = [''name'', ''time'', ''meas_sig_str'', ''status''],
            cells = [[Some ''s1'', Some ''2017-05-25T23:59:59Z'', Some ''1.5'', Some ''ok'']]\<rparr>),
      (''b.csv'', Some \<lparr>columns = [''name'', ''time'', ''meas_sig_str'', ''status'', ''extra''],
            cells = [[Some ''s1'', Some ''2017-05-26T00:00:00Z'', Some ''1.6'', Some ''ok'', Some ''x'']]\<rparr>)] =
     Inr (\<lparr>columns = [''name'', ''time'', ''meas_sig_str'', ''status''],
            cells = [[Some ''s1'', Some ''2017-05-25T23:59:59Z'', Some ''1.5'', Some ''ok'']]\<rparr>,
          [''b.csv''])
   \<and> read_data_merge
     [(''a.csv'', Some \<lparr>columns = [''name'', ''time'', ''meas_sig_str'', ''status''],
            cells = [[Some ''s1'', Some ''2017-05-25T23:59:59Z'', Some ''1.5'', Some ''ok'']]\<rparr>),
      (''c.csv'', Some \<lparr>columns = [''name'', ''time'', ''meas_sig_str'', ''status''],
            cells = [[Some ''s1'', Some ''2017-05-26T00:00:00Z'', None, Some ''ok'']]\<rparr>)] =
     Inl DataFileIsDefectiveError
   \<and> read_data_merge
     [(''b.csv'', Some \<lparr>columns = [''name'', ''time'', ''meas_sig_str'', ''status'', ''extra''],
            cells = [[Some ''s1'', Some ''2017-05-26T00:00:00Z'', Some ''1.6'', Some ''ok'', Some ''x'']]\<rparr>)] =
     Inl ValueError"
proof -
  let ?a = "Some \<lparr>columns = [''name'', ''time'', ''meas_sig_str'', ''status''],
            cells = [[Some ''s1'', Some ''2017-05-25T23:59:59Z'', Some ''1.5'', Some ''ok'']]\<rparr>"
  let ?b = "Some \<lparr>columns = [''name'', ''time'', ''meas_sig_str'', ''status'', ''extra''],
            cells = [[Some ''s1'', Some ''2017-05-26T00:00:00Z'', Some ''1.6'', Some ''ok'', Some ''x'']]\<rparr>"
  let ?c = "Some \<lparr>columns = [''name'', ''time'', ''meas_sig_str'', ''status''],
            cells = [[Some ''s1'', Some ''2017-05-26T00:00:00Z'', None, Some ''ok'']]\<rparr>"
  have va: "valid_batch ?a" and vb: "valid_batch ?b" and vc: "\<not> valid_batch ?c"
    by (simp_all add: valid_batch_def check_if_data_frame_is_valid_def cells_isnull_def)
  have ea: "expected_columns ?a" and eb: "\<not> expected_columns ?b"
    by (simp_all add: expected_columns_def)
  note t1 = column_failures_dropped_validity_failures_fatal [of "[(''a.csv'', ?a), (''b.csv'', ?b)]"]
  note t2 = column_failures_dropped_validity_failures_fatal [of "[(''a.csv'', ?a), (''c.csv'', ?c)]"]
  note t3 = column_failures_dropped_validity_failures_fatal [of "[(''b.csv'', ?b)]"]
  from t1 va vb ea eb obtain subject_df where
    m: "read_data_merge [(''a.csv'', ?a), (''b.csv'', ?b)] = Inr (subject_df, [''b.csv''])"
    and c: "cells subject_df = [[Some ''s1'', Some ''2017-05-25T23:59:59Z'', Some ''1.5'', Some ''ok'']]"
    by auto
  have "read_data_merge [(''a.csv'', ?a), (''b.csv'', ?b)] \<noteq> Inl e" for e
    using m by simp
  have first: "read_data_merge [(''a.csv'', ?a), (''b.csv'', ?b)] =
     Inr (\<lparr>columns = [''name'', ''time'', ''meas_sig_str'', ''status''],
            cells = [[Some ''s1'', Some ''2017-05-25T23:59:59Z'', Some ''1.5'', Some ''ok'']]\<rparr>,
          [''b.csv''])"
    by code_simp
  from t2 vc have "read_data_merge [(''a.csv'', ?a), (''c.csv'', ?c)] = Inl FailedToReadCSVError \<or>
        read_data_merge [(''a.csv'', ?a), (''c.csv'', ?c)] = Inl DataFileIsDefectiveError"
    by simp
  moreover have "read_data_merge [(''a.csv'', ?a), (''c.csv'', ?c)] \<noteq> Inl FailedToReadCSVError"
    by code_simp
  ultimately have second: "read_data_merge [(''a.csv'', ?a), (''c.csv'', ?c)] = Inl DataFileIsDefectiveError"
    by blast
  from t3 vb eb have third: "read_data_merge [(''b.csv'', ?b)] = Inl ValueError"
    by simp
  from m first second third show ?thesis by simp
qed

section \<open>Time normalisation\<close>


lemma is_digit_no_letter [simp]:
  "is_digit c \<Longrightarrow> (c = CHR ''Z'') = False"
  "is_digit c \<Longrightarrow> (c = CHR ''T'') = False"
  by (auto simp: is_digit_def)






text \<open>
  Claim C8. One time stamp that pandas cannot parse makes the whole conversion fail with
  \<^verbatim>\<open>DateTimeColumnIsDefectiveError\<close>: no list of time stamps is returned, whatever
  the other records are.
\<close>

theorem unparseable_stamp_is_fatal:
  assumes "x \<in> set time_stamps" and "parse (strip_letters x) = None"
  shows "convert_to_local_time parse time_stamps = Inl DateTimeColumnIsDefectiveError"
proof -
  from assms have "\<not> list_all (\<lambda>x. parse x \<noteq> None) (map strip_letters time_stamps)"
    by (auto simp: list_all_iff)
  then show ?thesis
    by (simp add: convert_to_local_time_def to_datetime_def)
qed

theorem unparseable_stamp_is_fatal_witness:
  "convert_to_local_time
     (\<lambda>s. if s = ''2017-05-25 23:59:59'' then Some 1495756799 else None)
     [''2017-05-25T23:59:59Z'', ''25 May, noon''] = Inl DateTimeColumnIsDefectiveError"
proof -
  have "strip_letters ''25 May, noon'' = ''25 May, noon''"
    by (simp add: strip_letters_def replace_char_def)
  then have "(\<lambda>s. if s = ''2017-05-25 23:59:59'' then Some (1495756799::int) else None)
               (strip_letters ''25 May, noon'') = None"
    by simp
  moreover have "''25 May, noon'' \<in> set [''2017-05-25T23:59:59Z'', ''25 May, noon'']"
    by simp
  ultimately show ?thesis
    by (rule unparseable_stamp_is_fatal [rotated])
qed

section \<open>Gap filling\<close>

subsection \<open>Assignments by label\<close>

lemma fst_loc_set: "map fst (loc_set upd vals df) = map fst df"
  by (induction df) (auto simp: loc_set_def)

lemma map_of_loc_set:
  "map_of (loc_set upd vals df) l =
     map_option (\<lambda>r. case map_of vals l of Some v \<Rightarrow> upd v r | None \<Rightarrow> r) (map_of df l)"
  by (induction df) (auto simp: loc_set_def split: option.splits)

lemma map_of_column:
  "map_of (map (\<lambda>(l, r). (l, f r)) df) l = map_option f (map_of df l)"
  by (induction df) auto

lemma map_of_present: "(map_of df l \<noteq> None) = (l \<in> set (map fst df))"
  by (induction df) auto

lemma map_of_absent: "(map_of df l = None) = (l \<notin> set (map fst df))"
  using map_of_present [of df l] by blast

lemma map_of_Some_present: "map_of df l = Some r \<Longrightarrow> l \<in> set (map fst df)"
  using map_of_present [of df l] by simp

lemma loc_list_Inr:
  "loc_list policy series labels = Inr vals \<Longrightarrow>
     vals = map (\<lambda>l. case map_of series l of Some v \<Rightarrow> v | None \<Rightarrow> None) labels"
  by (cases policy) (auto simp: loc_list_def Let_def split: if_splits)

lemma fill_block_other:
  "j \<noteq> - 1000 \<Longrightarrow> fill_block policy m (sig, full) ((i, j), ls) = Inr (sig, full)"
  by (simp add: fill_block_def)

lemma fill_block_long:
  "300 < length ls \<Longrightarrow>
   fill_block policy m (sig, full) ((i, - 1000), ls) =
     Inr (loc_set (\<lambda>v r. r\<lparr>block_length := v\<rparr>) (map (\<lambda>l. (l, length ls)) ls) sig, full)"
  by (simp add: fill_block_def Let_def)

lemma copy_at_block_length [simp]:
  "copy_at (loc_set (\<lambda>v r. r\<lparr>block_length := v\<rparr>) vals sig) l = copy_at sig l"
  by (simp add: copy_at_def map_of_loc_set split: option.splits)

lemma source_at_block_length [simp]:
  "source_at (loc_set (\<lambda>v r. r\<lparr>block_length := v\<rparr>) vals sig) l = source_at sig l"
  by (simp add: source_at_def map_of_loc_set split: option.splits)

lemma source_at_copy_sig [simp]:
  "source_at (loc_set (\<lambda>v r. r\<lparr>copy_sig := v\<rparr>) vals sig) l = source_at sig l"
  by (simp add: source_at_def map_of_loc_set split: option.splits)

lemma copy_at_copy_sig:
  "copy_at (loc_set (\<lambda>v r. r\<lparr>copy_sig := v\<rparr>) (zip ls (map f ls)) sig) l =
     (if l \<in> set ls \<and> l \<in> set (map fst sig) then f l else copy_at sig l)"
proof (cases "map_of sig l")
  case None
  then have "l \<notin> set (map fst sig)" by (simp add: map_of_absent)
  with None show ?thesis by (simp add: copy_at_def map_of_loc_set)
next
  case (Some r)
  then have "l \<in> set (map fst sig)" by (rule map_of_Some_present)
  with Some show ?thesis by (simp add: copy_at_def map_of_loc_set map_of_zip_map)
qed

lemma signal_at_meas:
  "signal_at (loc_set (\<lambda>v r. r\<lparr>meas_sig_str := v\<rparr>) (zip ls (map f ls)) full) l =
     (if l \<in> set ls \<and> l \<in> set (map fst full) then f l else signal_at full l)"
proof (cases "map_of full l")
  case None
  then have "l \<notin> set (map fst full)" by (simp add: map_of_absent)
  with None show ?thesis by (simp add: signal_at_def map_of_loc_set)
next
  case (Some r)
  then have "l \<in> set (map fst full)" by (rule map_of_Some_present)
  with Some show ?thesis by (simp add: signal_at_def map_of_loc_set map_of_zip_map)
qed

lemma series_source:
  "(case map_of (map (\<lambda>(l, r). (l, sig_meas_sig_str r)) sig) l of Some v \<Rightarrow> v | None \<Rightarrow> None) =
     source_at sig l"
  by (simp add: source_at_def map_of_column split: option.splits)

lemma series_copy:
  "(case map_of (map (\<lambda>(l, r). (l, copy_sig r)) sig) l of Some v \<Rightarrow> v | None \<Rightarrow> None) =
     copy_at sig l"
  by (simp add: copy_at_def map_of_column split: option.splits)

lemma fill_block_short:
  assumes "length ls \<le> 300"
    and "fill_block policy m (sig, full) ((i, - 1000), ls) = Inr (sig', full')"
  shows "map fst sig' = map fst sig"
    and "map fst full' = map fst full"
    and "source_at sig' l = source_at sig l"
    and "copy_at sig' l =
           (if l \<in> set ls \<and> l \<in> set (map fst sig) then source_at sig (l - int (length ls))
            else copy_at sig l)"
    and "signal_at full' l =
           (if l \<in> set m \<and> l \<in> set (map fst full) then copy_at sig' l else signal_at full l)"
proof -
  let ?sig1 = "loc_set (\<lambda>v r. r\<lparr>block_length := v\<rparr>) (map (\<lambda>l. (l, length ls)) ls) sig"
  let ?ind = "map (\<lambda>l. l - int (length ls)) ls"
  from assms obtain filler copied where
    f: "loc_list policy (map (\<lambda>(l, r). (l, sig_meas_sig_str r)) ?sig1) ?ind = Inr filler"
    and s: "sig' = loc_set (\<lambda>v r. r\<lparr>copy_sig := v\<rparr>) (zip ls filler) ?sig1"
    and c: "loc_list policy (map (\<lambda>(l, r). (l, copy_sig r)) sig') m = Inr copied"
    and u: "full' = loc_set (\<lambda>v r. r\<lparr>meas_sig_str := v\<rparr>) (zip m copied) full"
    by (auto simp: fill_block_def Let_def split: sum.splits)
  have filler: "filler = map (\<lambda>l. source_at sig (l - int (length ls))) ls"
    using loc_list_Inr [OF f] by (simp add: series_source comp_def)
  have copied: "copied = map (copy_at sig') m"
    using loc_list_Inr [OF c] by (simp add: series_copy)
  show "map fst sig' = map fst sig" by (simp add: s fst_loc_set)
  show "map fst full' = map fst full" by (simp add: u fst_loc_set)
  show "source_at sig' l = source_at sig l" by (simp add: s)
  show "copy_at sig' l =
           (if l \<in> set ls \<and> l \<in> set (map fst sig) then source_at sig (l - int (length ls))
            else copy_at sig l)"
    unfolding s filler by (simp add: copy_at_copy_sig fst_loc_set)
  show "signal_at full' l =
           (if l \<in> set m \<and> l \<in> set (map fst full) then copy_at sig' l else signal_at full l)"
    unfolding u copied by (simp add: signal_at_meas)
qed


lemma fill_blocks_append:
  "fill_blocks policy m (xs @ ys) st =
     (case fill_blocks policy m xs st of
        Inl e \<Rightarrow> Inl e
      | Inr st' \<Rightarrow> fill_blocks policy m ys st')"
  by (induction xs arbitrary: st) (auto split: sum.splits)

lemma fill_block_frame:
  assumes "fill_block policy m (sig, full) g = Inr (sig', full')"
  shows "map fst sig' = map fst sig"
    and "map fst full' = map fst full"
    and "source_at sig' l = source_at sig l"
    and "l \<notin> set (snd g) \<Longrightarrow> copy_at sig' l = copy_at sig l"
proof -
  obtain i j ls where g: "g = ((i, j), ls)" by (cases g) auto
  consider "j \<noteq> - 1000" | "j = - 1000" "300 < length ls" | "j = - 1000" "length ls \<le> 300"
    by linarith
  then have "map fst sig' = map fst sig \<and> map fst full' = map fst full \<and>
             source_at sig' l = source_at sig l \<and>
             (l \<notin> set ls \<longrightarrow> copy_at sig' l = copy_at sig l)"
  proof cases
    case 1
    with assms g show ?thesis by (simp add: fill_block_other)
  next
    case 2
    with assms g show ?thesis by (auto simp: fill_block_long fst_loc_set)
  next
    case 3
    with assms g have f: "fill_block policy m (sig, full) ((i, - 1000), ls) = Inr (sig', full')"
      by simp
    show ?thesis
      using fill_block_short(1-4) [OF 3(2) f] by simp
  qed
  with g show "map fst sig' = map fst sig" "map fst full' = map fst full"
    "source_at sig' l = source_at sig l" "l \<notin> set (snd g) \<Longrightarrow> copy_at sig' l = copy_at sig l"
    by simp_all
qed

lemma fill_blocks_frame:
  "fill_blocks policy m gs (sig, full) = Inr (sig', full') \<Longrightarrow>
     map fst sig' = map fst sig \<and> map fst full' = map fst full \<and>
     source_at sig' l = source_at sig l \<and>
     (l \<notin> set (concat (map snd gs)) \<longrightarrow> copy_at sig' l = copy_at sig l)"
proof (induction gs arbitrary: sig full)
  case Nil
  then show ?case by simp
next
  case (Cons g gs)
  from Cons.prems obtain sig1 full1 where
    s: "fill_block policy m (sig, full) g = Inr (sig1, full1)"
    and r: "fill_blocks policy m gs (sig1, full1) = Inr (sig', full')"
    by (auto split: sum.splits)
  show ?case
    using Cons.IH [OF r] fill_block_frame [OF s] by auto
qed

lemma fill_block_follows:
  assumes "fill_block policy m (sig, full) g = Inr (sig', full')"
    and "\<forall>l\<in>set m. l \<in> set (map fst full) \<longrightarrow> signal_at full l = copy_at sig l"
  shows "\<forall>l\<in>set m. l \<in> set (map fst full') \<longrightarrow> signal_at full' l = copy_at sig' l"
proof -
  obtain i j ls where g: "g = ((i, j), ls)" by (cases g) auto
  consider "j \<noteq> - 1000" | "j = - 1000" "300 < length ls" | "j = - 1000" "length ls \<le> 300"
    by linarith
  then show ?thesis
  proof cases
    case 1
    with assms g show ?thesis by (simp add: fill_block_other)
  next
    case 2
    with assms g show ?thesis by (auto simp: fill_block_long)
  next
    case 3
    with assms g have f: "fill_block policy m (sig, full) ((i, - 1000), ls) = Inr (sig', full')"
      by simp
    show ?thesis
      using fill_block_short(2,5) [OF 3(2) f] by simp
  qed
qed

lemma fill_blocks_follows:
  "fill_blocks policy m gs (sig, full) = Inr (sig', full') \<Longrightarrow>
   \<forall>l\<in>set m. l \<in> set (map fst full) \<longrightarrow> signal_at full l = copy_at sig l \<Longrightarrow>
   \<forall>l\<in>set m. l \<in> set (map fst full') \<longrightarrow> signal_at full' l = copy_at sig' l"
proof (induction gs arbitrary: sig full)
  case Nil
  then show ?case by simp
next
  case (Cons g gs)
  from Cons.prems(1) obtain sig1 full1 where
    s: "fill_block policy m (sig, full) g = Inr (sig1, full1)"
    and r: "fill_blocks policy m gs (sig1, full1) = Inr (sig', full')"
    by (auto split: sum.splits)
  show ?case
    using Cons.IH [OF r fill_block_follows [OF s Cons.prems(2)]] .
qed

lemma fill_block_keeps_unset:
  assumes "fill_block policy m (sig, full) g = Inr (sig', full')"
    and "set (snd g) \<inter> set ls = {} \<or> snd (fst g) \<noteq> - 1000 \<or> 300 < length (snd g)"
    and "\<forall>l\<in>set ls. copy_at sig l = None \<and> signal_at full l = None"
  shows "\<forall>l\<in>set ls. copy_at sig' l = None \<and> signal_at full' l = None"
proof -
  obtain i j gl where g: "g = ((i, j), gl)" by (cases g) auto
  consider "j \<noteq> - 1000" | "j = - 1000" "300 < length gl" | "j = - 1000" "length gl \<le> 300"
    by linarith
  then show ?thesis
  proof cases
    case 1
    with assms g show ?thesis by (simp add: fill_block_other)
  next
    case 2
    with assms g show ?thesis by (auto simp: fill_block_long)
  next
    case 3
    with assms g have f: "fill_block policy m (sig, full) ((i, - 1000), gl) = Inr (sig', full')"
      by simp
    from 3 assms(2) g have d: "set gl \<inter> set ls = {}" by simp
    show ?thesis
    proof
      fix l assume l: "l \<in> set ls"
      with d have "l \<notin> set gl" by blast
      then have c: "copy_at sig' l = copy_at sig l"
        using fill_block_short(4) [OF 3(2) f, of l] by simp
      with assms(3) l have "copy_at sig' l = None" by simp
      moreover from this assms(3) l have "signal_at full' l = None"
        using fill_block_short(5) [OF 3(2) f, of l] by simp
      ultimately show "copy_at sig' l = None \<and> signal_at full' l = None" by simp
    qed
  qed
qed

lemma fill_blocks_keeps_unset:
  "fill_blocks policy m gs (sig, full) = Inr (sig', full') \<Longrightarrow>
   \<forall>g\<in>set gs. set (snd g) \<inter> set ls = {} \<or> snd (fst g) \<noteq> - 1000 \<or> 300 < length (snd g) \<Longrightarrow>
   \<forall>l\<in>set ls. copy_at sig l = None \<and> signal_at full l = None \<Longrightarrow>
   \<forall>l\<in>set ls. copy_at sig' l = None \<and> signal_at full' l = None"
proof (induction gs arbitrary: sig full)
  case Nil
  then show ?case by simp
next
  case (Cons g gs)
  from Cons.prems(1) obtain sig1 full1 where
    s: "fill_block policy m (sig, full) g = Inr (sig1, full1)"
    and r: "fill_blocks policy m gs (sig1, full1) = Inr (sig', full')"
    by (auto split: sum.splits)
  from Cons.prems(2) have h: "set (snd g) \<inter> set ls = {} \<or> snd (fst g) \<noteq> - 1000 \<or> 300 < length (snd g)"
    and t: "\<forall>g\<in>set gs. set (snd g) \<inter> set ls = {} \<or> snd (fst g) \<noteq> - 1000 \<or> 300 < length (snd g)"
    by simp_all
  show ?case
    using Cons.IH [OF r t fill_block_keeps_unset [OF s h Cons.prems(3)]] .
qed

subsection \<open>blocks\<close>

lemma block_groups_labels: "concat (map snd (block_groups xs)) = map fst xs"
  by (induction xs rule: block_groups.induct) (auto split: list.splits)

lemma block_groups_head:
  "\<exists>ls gs. block_groups ((l, r) # rest) = (newcol r, l # ls) # gs"
  by (auto split: list.splits)

lemma block_groups_constant:
  "xs \<noteq> [] \<Longrightarrow> \<forall>x\<in>set xs. newcol (snd x) = c \<Longrightarrow> block_groups xs = [(c, map fst xs)]"
proof (induction xs rule: block_groups.induct)
  case 1
  then show ?case by simp
next
  case (2 l r rest)
  show ?case
  proof (cases rest)
    case Nil
    with 2 show ?thesis by simp
  next
    case (Cons y ys)
    with 2 have "block_groups rest = [(c, map fst rest)]" by simp
    with 2 show ?thesis by simp
  qed
qed

lemma block_groups_append:
  "xs = [] \<or> ys = [] \<or> newcol (snd (last xs)) \<noteq> newcol (snd (hd ys)) \<Longrightarrow>
   block_groups (xs @ ys) = block_groups xs @ block_groups ys"
proof (induction xs rule: block_groups.induct)
  case 1
  then show ?case by simp
next
  case (2 l r rest)
  show ?case
  proof (cases ys)
    case Nil
    then show ?thesis by simp
  next
    case (Cons y ys')
    obtain ly ry where y: "y = (ly, ry)" by (cases y)
    show ?thesis
    proof (cases rest)
      case Nil
      with 2 Cons y have ne: "newcol r \<noteq> newcol ry" by simp
      obtain ls gs where "block_groups ((ly, ry) # ys') = (newcol ry, ly # ls) # gs"
        using block_groups_head by blast
      with Nil Cons y ne show ?thesis by simp
    next
      case (Cons z zs)
      with 2 \<open>ys = y # ys'\<close> have "block_groups (rest @ ys) = block_groups rest @ block_groups ys"
        by simp
      moreover obtain lz rz where "z = (lz, rz)" by (cases z)
      then obtain ls gs where "block_groups rest = (newcol rz, lz # ls) # gs"
        using Cons block_groups_head by blast
      ultimately show ?thesis by simp
    qed
  qed
qed


lemma map_of_constant: "map_of (map (\<lambda>l. (l, c)) m) l = (if l \<in> set m then Some c else None)"
  by (induction m) auto

lemma sig_newcol_rows:
  "sig_newcol full m =
     map (\<lambda>(l, r). (l, \<lparr>sig_meas_sig_str = meas_sig_str r,
                           newcol = (if l \<in> set m then - 1000 else 0), block = 0,
                           block_length = 0, copy_sig = None\<rparr>)) full"
  by (induction full) (auto simp: sig_newcol_def loc_set_def map_of_constant)

lemma sig_newcol_append:
  "sig_newcol (xs @ ys) m = sig_newcol xs m @ sig_newcol ys m"
  by (simp add: sig_newcol_rows)

lemma fst_sig_newcol: "map fst (sig_newcol full m) = map fst full"
  by (induction full) (auto simp: sig_newcol_rows)

lemma newcol_sig_newcol:
  "x \<in> set (sig_newcol full m) \<Longrightarrow> newcol (snd x) = (if fst x \<in> set m then - 1000 else 0)"
  by (auto simp: sig_newcol_rows)

lemma source_at_sig_newcol: "source_at (sig_newcol full m) l = signal_at full l"
  by (induction full) (auto simp: sig_newcol_rows source_at_def signal_at_def)

lemma copy_at_sig_newcol: "copy_at (sig_newcol full m) l = None"
  by (induction full) (auto simp: sig_newcol_rows copy_at_def)

lemma block_groups_run:
  assumes "blk \<noteq> []" and "\<forall>x\<in>set blk. newcol (snd x) = c"
    and "pre = [] \<or> newcol (snd (last pre)) \<noteq> c"
    and "post = [] \<or> newcol (snd (hd post)) \<noteq> c"
  shows "block_groups (pre @ blk @ post) = block_groups pre @ [(c, map fst blk)] @ block_groups post"
proof -
  from assms(1,2) have h: "newcol (snd (hd blk)) = c" and l: "newcol (snd (last blk)) = c"
    by simp_all
  from assms(1) h assms(3) have "block_groups (pre @ blk @ post) = block_groups pre @ block_groups (blk @ post)"
    by (intro block_groups_append) auto
  moreover from l assms(4) have "block_groups (blk @ post) = block_groups blk @ block_groups post"
    by (intro block_groups_append) auto
  moreover from assms(1,2) have "block_groups blk = [(c, map fst blk)]"
    by (rule block_groups_constant)
  ultimately show ?thesis by simp
qed

lemma dense_take:
  assumes "map fst full = map int [0..<n]" and "b \<le> n"
  shows "map fst (take b full) = map int [0..<b]"
proof -
  have "map fst (take b full) = take b (map fst full)" by (simp add: take_map)
  also have "\<dots> = map int (take b [0..<n])" by (simp only: assms take_map)
  also from assms(2) have "\<dots> = map int [0..<b]" by simp
  finally show ?thesis .
qed

lemma dense_drop:
  assumes "map fst full = map int [0..<n]"
  shows "map fst (drop b full) = map int [b..<n]"
proof -
  have "map fst (drop b full) = drop b (map fst full)" by (simp add: drop_map)
  also have "\<dots> = map int (drop b [0..<n])" by (simp only: assms drop_map)
  also have "\<dots> = map int [b..<n]" by simp
  finally show ?thesis .
qed

lemma dense_block:
  assumes "map fst full = map int [0..<n]" and "b + L \<le> n"
  shows "map fst (take L (drop b full)) = map int [b..<b + L]"
proof -
  have "map fst (take L (drop b full)) = take L (map fst (drop b full))" by (simp add: take_map)
  also have "\<dots> = map int (take L [b..<n])" by (simp only: dense_drop [OF assms(1)] take_map)
  also from assms(2) have "\<dots> = map int [b..<b + L]" by simp
  finally show ?thesis .
qed

lemma missing_block_run:
  assumes dense: "map fst full = map int [0..<n]"
    and len: "b + L \<le> n" "0 < L"
    and inside: "\<forall>i. b \<le> i \<and> i < b + L \<longrightarrow> int i \<in> set m"
    and before: "b = 0 \<or> int (b - 1) \<notin> set m"
    and after: "b + L = n \<or> int (b + L) \<notin> set m"
  shows "block_groups (sig_newcol full m) =
           block_groups (sig_newcol (take b full) m) @
           [(- 1000, map int [b..<b + L])] @
           block_groups (sig_newcol (drop (b + L) full) m)"
proof -
  let ?pre = "sig_newcol (take b full) m"
  let ?blk = "sig_newcol (take L (drop b full)) m"
  let ?post = "sig_newcol (drop (b + L) full) m"
  have split: "full = take b full @ take L (drop b full) @ drop (b + L) full"
    by (metis append_take_drop_id drop_drop add.commute)
  have whole: "sig_newcol full m = ?pre @ ?blk @ ?post"
    by (subst split) (simp only: sig_newcol_append)
  have lb: "map fst ?blk = map int [b..<b + L]"
    using dense len by (simp add: fst_sig_newcol dense_block)
  from len lb have ne: "?blk \<noteq> []" by auto
  have allm: "\<forall>x\<in>set ?blk. newcol (snd x) = - 1000"
  proof
    fix x assume x: "x \<in> set ?blk"
    then have "fst x \<in> set (map fst ?blk)" by simp
    with lb inside have "fst x \<in> set m" by auto
    with x show "newcol (snd x) = - 1000" by (simp add: newcol_sig_newcol)
  qed
  have pre: "?pre = [] \<or> newcol (snd (last ?pre)) \<noteq> - 1000"
  proof (cases "?pre = []")
    case True
    then show ?thesis by simp
  next
    case False
    have lp: "map fst ?pre = map int [0..<b]"
      using dense len by (simp add: fst_sig_newcol dense_take)
    with False have b: "0 < b" by (cases b) auto
    from False have "fst (last ?pre) = last (map fst ?pre)" by (simp add: last_map)
    also from b lp have "\<dots> = int (b - 1)" by (cases b) simp_all
    finally have "fst (last ?pre) \<notin> set m" using before b by simp
    moreover from False have "last ?pre \<in> set ?pre" by simp
    ultimately show ?thesis by (simp add: newcol_sig_newcol)
  qed
  have post: "?post = [] \<or> newcol (snd (hd ?post)) \<noteq> - 1000"
  proof (cases "?post = []")
    case True
    then show ?thesis by simp
  next
    case False
    have lp: "map fst ?post = map int [b + L..<n]"
      using dense by (simp add: fst_sig_newcol dense_drop)
    with False have b: "b + L < n" by (cases "b + L < n") auto
    from False have "fst (hd ?post) = hd (map fst ?post)" by (simp add: hd_map)
    also from b lp have "\<dots> = int (b + L)" by (simp add: upt_conv_Cons)
    finally have "fst (hd ?post) \<notin> set m" using after b by simp
    moreover from False have "hd ?post \<in> set ?post" by simp
    ultimately show ?thesis by (simp add: newcol_sig_newcol)
  qed
  show ?thesis
    unfolding whole using block_groups_run [OF ne allm pre post] lb by simp
qed


subsection \<open>The groups are the runs\<close>

lemma block_groups_cong:
  "map (\<lambda>(l, r). (l, newcol r)) xs = map (\<lambda>(l, r). (l, newcol r)) ys \<Longrightarrow>
     block_groups xs = block_groups ys"
proof (induction xs arbitrary: ys rule: block_groups.induct)
  case 1
  then show ?case by simp
next
  case (2 l r rest)
  from "2.prems" obtain l' r' rest' where ys: "ys = (l', r') # rest'"
    by (cases ys) auto
  with "2.prems" have h: "l' = l" "newcol r' = newcol r"
    and t: "map (\<lambda>(l, r). (l, newcol r)) rest = map (\<lambda>(l, r). (l, newcol r)) rest'"
    by simp_all
  from "2.IH" [OF t] ys h show ?case by (simp split: list.splits)
qed

lemma numbered_ge:
  "numbered a (Some c) ks \<Longrightarrow> (b', c') \<in> set ks \<Longrightarrow> a \<le> b' \<and> (b' = a \<longrightarrow> c' = c)"
proof (induction ks arbitrary: a c)
  case Nil
  then show ?case by simp
next
  case (Cons k ks)
  obtain b1 c1 where k: "k = (b1, c1)" by (cases k)
  from Cons.prems(1) k have b1: "b1 = a + (if c \<noteq> c1 then 1 else 0)"
    and rest: "numbered b1 (Some c1) ks"
    by (cases "c = c1"; simp)+
  show ?case
  proof (cases "(b', c') = k")
    case True
    with k b1 show ?thesis by (auto split: if_splits)
  next
    case False
    with Cons.prems(2) have "(b', c') \<in> set ks" by simp
    from Cons.IH [OF rest this] b1 show ?thesis by (auto split: if_splits)
  qed
qed

lemma length_cumsum_from: "length (cumsum_from acc xs) = length xs"
  by (induction xs arbitrary: acc) simp_all

lemma numbered_cumsum:
  "numbered acc prev
     (zip (cumsum_from acc (map (\<lambda>(p, c). if p \<noteq> Some c then 1 else 0)
                              (zip (prev # map Some cs) cs))) cs)"
  by (induction cs arbitrary: acc prev) simp_all

lemma zip_shift_1: "zip (shift_1 cs) cs = zip (None # map Some cs) cs"
proof -
  have "zip (shift_1 cs) cs = zip (take (length cs) (None # map Some cs)) (take (length cs) cs)"
    by (simp add: shift_1_def)
  also have "\<dots> = take (length cs) (zip (None # map Some cs) cs)"
    by (simp only: take_zip)
  also have "\<dots> = zip (None # map Some cs) cs"
    by simp
  finally show ?thesis .
qed

lemma numbered_block_column: "numbered 0 None (zip (block_column cs) cs)"
  by (simp add: block_column_def cumsum_def zip_shift_1 numbered_cumsum)

lemma length_block_column: "length (block_column cs) = length cs"
  by (simp add: block_column_def cumsum_def length_cumsum_from shift_1_def)

lemma block_written:
  assumes "length bs = length rows"
  shows "map fst (map (\<lambda>((l, r), b). (l, r\<lparr>block := b\<rparr>)) (zip rows bs)) = map fst rows"
    and "map (\<lambda>(l, r). (l, newcol r)) (map (\<lambda>((l, r), b). (l, r\<lparr>block := b\<rparr>)) (zip rows bs)) =
           map (\<lambda>(l, r). (l, newcol r)) rows"
    and "map (\<lambda>(l, r). (block r, newcol r))
           (map (\<lambda>((l, r), b). (l, r\<lparr>block := b\<rparr>)) (zip rows bs)) =
           zip bs (map (\<lambda>(l, r). newcol r) rows)"
    and "source_at (map (\<lambda>((l, r), b). (l, r\<lparr>block := b\<rparr>)) (zip rows bs)) x = source_at rows x"
    and "copy_at (map (\<lambda>((l, r), b). (l, r\<lparr>block := b\<rparr>)) (zip rows bs)) x = copy_at rows x"
  using assms
  by (induction bs rows rule: list_induct2; auto simp: source_at_def copy_at_def)+

lemma length_init_blocks:
  "length (block_column (map (\<lambda>(l, r). newcol r) (sig_newcol full m))) =
     length (sig_newcol full m :: 'v sig_frame)"
  by (simp add: length_block_column)

lemma fst_sig_str_df_init: "map fst (sig_str_df_init full m) = map fst full"
  unfolding sig_str_df_init_def Let_def
  by (simp only: block_written(1) [OF length_init_blocks] fst_sig_newcol)

lemma source_at_init: "source_at (sig_str_df_init full m) l = signal_at full l"
  unfolding sig_str_df_init_def Let_def
  by (simp only: block_written(4) [OF length_init_blocks] source_at_sig_newcol)

lemma copy_at_init: "copy_at (sig_str_df_init full m) l = None"
  unfolding sig_str_df_init_def Let_def
  by (simp only: block_written(5) [OF length_init_blocks] copy_at_sig_newcol)

lemma newcols_init:
  "map (\<lambda>(l, r). (l, newcol r)) (sig_str_df_init full m) =
     map (\<lambda>(l, r). (l, newcol r)) (sig_newcol full m)"
  unfolding sig_str_df_init_def Let_def
  by (simp only: block_written(2) [OF length_init_blocks])

lemma newcol_init:
  assumes "(l, r) \<in> set (sig_str_df_init full m)"
  shows "newcol r = (if l \<in> set m then - 1000 else 0)"
proof -
  from assms have "(l, newcol r) \<in> set (map (\<lambda>(l, r). (l, newcol r)) (sig_str_df_init full m))"
    by force
  then have "(l, newcol r) \<in> set (map (\<lambda>(l, r). (l, newcol r)) (sig_newcol full m))"
    by (simp only: newcols_init)
  then obtain r' where "(l, r') \<in> set (sig_newcol full m)" "newcol r' = newcol r"
    by auto
  with newcol_sig_newcol [of "(l, r')" full m] show ?thesis by simp
qed

lemma numbered_init:
  "numbered 0 None (map (\<lambda>(l, r). (block r, newcol r)) (sig_str_df_init full m))"
  unfolding sig_str_df_init_def Let_def
  by (simp only: block_written(3) [OF length_init_blocks] numbered_block_column)

lemma smallest_key:
  assumes "numbered a (Some c) ks"
  shows "sorted_list_of_set (insert (a, c) (set ks)) =
           (a, c) # sorted_list_of_set (set ks - {(a, c)})"
proof -
  have "\<forall>k\<in>set (sorted_list_of_set (set ks - {(a, c)})). (a, c) \<le> k"
  proof
    fix k assume "k \<in> set (sorted_list_of_set (set ks - {(a, c)}))"
    then have k: "k \<in> set ks" by simp
    obtain b' c' where kk: "k = (b', c')" by (cases k)
    with k have "(b', c') \<in> set ks" by simp
    from numbered_ge [OF assms this] have "a \<le> b' \<and> (b' = a \<longrightarrow> c' = c)" .
    with kk show "(a, c) \<le> k"
      by (auto simp: less_eq_prod_def)
  qed
  then show ?thesis
    by (simp add: sorted_list_of_set_insert_remove insort_is_Cons)
qed

lemma groupby_runs:
  "numbered acc prev (map (\<lambda>(l, r). (block r, newcol r)) df) \<Longrightarrow>
     map (\<lambda>(k, ls). (snd k, ls)) (groupby_block_newcol df) = block_groups df"
proof (induction df arbitrary: acc prev)
  case Nil
  then show ?case by (simp add: groupby_block_newcol_def)
next
  case (Cons x rest)
  obtain l r where x: "x = (l, r)" by (cases x)
  let ?key = "\<lambda>(l, r). (block r, newcol r)"
  let ?kx = "(block r, newcol r)"
  let ?K = "set (map ?key rest)"
  let ?S = "sorted_list_of_set (?K - {?kx})"
  let ?grp = "\<lambda>df k. (k, map fst (filter (\<lambda>y. ?key y = k) df))"
  let ?strip = "\<lambda>(k, ls). (snd k, ls)"
  from Cons.prems x have rest: "numbered (block r) (Some (newcol r)) (map ?key rest)"
    by (cases "prev = Some (newcol r)"; simp)
  have IH: "map ?strip (groupby_block_newcol rest) = block_groups rest"
    by (rule Cons.IH [OF rest])
  have keys: "sorted_list_of_set (insert ?kx ?K) = ?kx # ?S"
    by (rule smallest_key [OF rest])
  have others: "map (?grp (x # rest)) ?S = map (?grp rest) ?S"
  proof (rule map_cong [OF refl])
    fix k assume "k \<in> set ?S"
    then have "k \<noteq> ?kx" by simp
    with x show "?grp (x # rest) k = ?grp rest k" by auto
  qed
  have whole: "groupby_block_newcol (x # rest) =
                 (?kx, l # map fst (filter (\<lambda>y. ?key y = ?kx) rest)) # map (?grp rest) ?S"
    using keys others x by (simp add: groupby_block_newcol_def case_prod_unfold)
  show ?case
  proof (cases "?kx \<in> ?K")
    case True
    then have e: "insert ?kx ?K = ?K" by auto
    from keys have "sorted_list_of_set ?K = ?kx # ?S" unfolding e .
    then have "groupby_block_newcol rest =
                 (?kx, map fst (filter (\<lambda>y. ?key y = ?kx) rest)) # map (?grp rest) ?S"
      by (simp add: groupby_block_newcol_def case_prod_unfold)
    with IH have "block_groups rest =
                    (newcol r, map fst (filter (\<lambda>y. ?key y = ?kx) rest)) #
                    map ?strip (map (?grp rest) ?S)"
      by simp
    with whole x show ?thesis by simp
  next
    case False
    then have none: "filter (\<lambda>y. ?key y = ?kx) rest = []"
      by (force simp: filter_empty_conv)
    from False have "?K - {?kx} = ?K" by auto
    then have "groupby_block_newcol rest = map (?grp rest) ?S"
      by (simp add: groupby_block_newcol_def case_prod_unfold)
    with whole none have w: "groupby_block_newcol (x # rest) = (?kx, [l]) # groupby_block_newcol rest"
      by simp
    show ?thesis
    proof (cases rest)
      case Nil
      with w x show ?thesis by (simp add: groupby_block_newcol_def)
    next
      case (Cons y ys)
      obtain l' r' where y: "y = (l', r')" by (cases y)
      have "newcol r' \<noteq> newcol r"
      proof
        assume e: "newcol r' = newcol r"
        with rest Cons y have "block r' = block r" by simp
        with e Cons y have "?kx \<in> ?K" by force
        with False show False by simp
      qed
      moreover obtain ls gs where "block_groups rest = (newcol r', l' # ls) # gs"
        using Cons y block_groups_head by blast
      ultimately show ?thesis using w x IH by simp
    qed
  qed
qed

lemma groupby_init:
  "map (\<lambda>(k, ls). (snd k, ls)) (groupby_block_newcol (sig_str_df_init full m)) =
     block_groups (sig_newcol full m)"
  using groupby_runs [OF numbered_init, of full m] block_groups_cong [OF newcols_init, of full m]
  by simp

lemma groupby_group_rows:
  assumes "g \<in> set (groupby_block_newcol df)"
  shows "snd g \<noteq> []" and "l \<in> set (snd g) \<Longrightarrow> \<exists>r. (l, r) \<in> set df \<and> newcol r = snd (fst g)"
proof -
  let ?key = "\<lambda>(l, r). (block r, newcol r)"
  from assms obtain k where "k \<in> set (sorted_list_of_set (set (map ?key df)))"
    and g: "g = (k, map fst (filter (\<lambda>(l, r). (block r, newcol r) = k) df))"
    unfolding groupby_block_newcol_def set_map by (rule imageE)
  then have "k \<in> set (map ?key df)" by simp
  then obtain y where "y \<in> set df" "?key y = k" by auto
  then have "y \<in> set (filter (\<lambda>(l, r). (block r, newcol r) = k) df)" by auto
  then have "filter (\<lambda>(l, r). (block r, newcol r) = k) df \<noteq> []"
    by (metis empty_iff list.set(1))
  with g show "snd g \<noteq> []" by simp
  show "\<exists>r. (l, r) \<in> set df \<and> newcol r = snd (fst g)" if "l \<in> set (snd g)"
    using that g by auto
qed

lemma missing_block_group:
  assumes dense: "map fst full = map int [0..<n]"
    and len: "b + L \<le> n" "0 < L"
    and inside: "\<forall>i. b \<le> i \<and> i < b + L \<longrightarrow> int i \<in> set m"
    and before: "b = 0 \<or> int (b - 1) \<notin> set m"
    and after: "b + L = n \<or> int (b + L) \<notin> set m"
  shows "\<exists>A i B. groupby_block_newcol (sig_str_df_init full m) =
                   A @ [((i, - 1000), map int [b..<b + L])] @ B \<and>
                 concat (map snd A) = map int [0..<b] \<and>
                 concat (map snd B) = map int [b + L..<n]"
proof -
  let ?strip = "\<lambda>(k, ls). (snd k, ls) :: int \<times> int list"
  let ?G1 = "block_groups (sig_newcol (take b full) m)"
  let ?G2 = "block_groups (sig_newcol (drop (b + L) full) m)"
  have "map ?strip (groupby_block_newcol (sig_str_df_init full m)) =
          ?G1 @ [(- 1000, map int [b..<b + L])] @ ?G2"
    using missing_block_run [OF dense len inside before after] by (simp only: groupby_init)
  then obtain A g B where
    whole: "groupby_block_newcol (sig_str_df_init full m) = A @ [g] @ B"
    and A: "map ?strip A = ?G1" and g: "?strip g = (- 1000, map int [b..<b + L])"
    and B: "map ?strip B = ?G2"
    by (auto simp: map_eq_append_conv map_eq_Cons_conv)
  from g obtain i where gi: "g = ((i, - 1000), map int [b..<b + L])"
    by (cases g) auto
  have labels: "concat (map snd (map ?strip xs)) = concat (map snd xs)" for xs
    by (induction xs) auto
  have "concat (map snd A) = concat (map snd ?G1)"
    using labels [of A] A by simp
  then have lA: "concat (map snd A) = map int [0..<b]"
    using dense len(1) by (simp add: block_groups_labels fst_sig_newcol dense_take)
  have "concat (map snd B) = concat (map snd ?G2)"
    using labels [of B] B by simp
  then have lB: "concat (map snd B) = map int [b + L..<n]"
    using dense by (simp add: block_groups_labels fst_sig_newcol dense_drop)
  from whole gi lA lB show ?thesis by blast
qed

lemma fill_missing_signal_values_Inr:
  "fill_missing_signal_values policy full m = Inr full' \<Longrightarrow>
     \<exists>sig'. fill_blocks policy m (groupby_block_newcol (sig_str_df_init full m))
              (sig_str_df_init full m, full) = Inr (sig', full')"
  by (auto simp: fill_missing_signal_values_def Let_def split: sum.splits)

text \<open>
  Claim C2. In a frame indexed by the seconds \<open>0, \<dots>, n - 1\<close>, let the rows
  \<open>b, \<dots>, b + L - 1\<close> be a block of missing seconds with \<open>L \<le> 300\<close>, and let the
  \<open>L\<close> rows before it be measured. When gap filling returns, row \<open>b + k\<close> of the
  block holds the signal value of row \<open>b - L + k\<close>, the row at position \<open>k\<close> of the
  \<open>L\<close> rows before the block.
\<close>

theorem short_block_copies_preceding_block:
  assumes dense: "map fst full = map int [0..<n]"
    and len: "b + L \<le> n" "0 < L" "L \<le> 300"
    and inside: "\<forall>i. b \<le> i \<and> i < b + L \<longrightarrow> int i \<in> set missing_secs"
    and after: "b + L = n \<or> int (b + L) \<notin> set missing_secs"
    and room: "L \<le> b"
    and measured: "\<forall>i. b - L \<le> i \<and> i < b \<longrightarrow> int i \<notin> set missing_secs"
    and result: "fill_missing_signal_values policy full missing_secs = Inr full'"
    and k: "k < L"
  shows "signal_at full' (int (b + k)) = signal_at full (int (b - L + k))"
proof -
  let ?m = missing_secs
  let ?sig0 = "sig_str_df_init full ?m"
  let ?ls = "map int [b..<b + L]"
  let ?l = "int (b + k)"
  from room len(2) have "b - L \<le> b - 1 \<and> b - 1 < b" by arith
  with measured have before: "b = 0 \<or> int (b - 1) \<notin> set ?m" by blast
  from missing_block_group [OF dense len(1,2) inside before after] obtain A i B where
    groups: "groupby_block_newcol ?sig0 = A @ [((i, - 1000), ?ls)] @ B"
    and lB: "concat (map snd B) = map int [b + L..<n]"
    by blast
  from fill_missing_signal_values_Inr [OF result] obtain sig' where
    run: "fill_blocks policy ?m (A @ [((i, - 1000), ?ls)] @ B) (?sig0, full) = Inr (sig', full')"
    unfolding groups by blast
  then obtain sig1 full1 sig2 full2 where
    r1: "fill_blocks policy ?m A (?sig0, full) = Inr (sig1, full1)"
    and r2: "fill_block policy ?m (sig1, full1) ((i, - 1000), ?ls) = Inr (sig2, full2)"
    and r3: "fill_blocks policy ?m B (sig2, full2) = Inr (sig', full')"
    by (auto simp: fill_blocks_append split: sum.splits)
  have short: "length ?ls \<le> 300" using len(3) by simp
  have idx1: "map fst sig1 = map int [0..<n]" "map fst full1 = map int [0..<n]"
    using fill_blocks_frame [OF r1, of 0] dense by (simp_all add: fst_sig_str_df_init)
  have idx2: "map fst full2 = map int [0..<n]"
    using fill_block_short(2) [OF short r2] idx1 by simp
  have idx3: "map fst full' = map int [0..<n]"
    using fill_blocks_frame [OF r3, of 0] idx2 by simp
  from k have "b + k \<in> set [b..<b + L]" by simp
  then have lin: "?l \<in> set ?ls" unfolding set_map by (rule imageI)
  from k len(1) have "b + k \<in> set [0..<n]" by simp
  then have lidx: "?l \<in> set (map int [0..<n])" unfolding set_map by (rule imageI)
  from k have "b \<le> b + k \<and> b + k < b + L" by simp
  with inside have lm: "?l \<in> set ?m" by blast
  have src: "source_at sig1 (?l - int L) = signal_at full (?l - int L)"
    using fill_blocks_frame [OF r1, of "?l - int L"] by (simp add: source_at_init)
  have c2: "copy_at sig2 ?l = source_at sig1 (?l - int L)"
    using fill_block_short(4) [OF short r2, of ?l] lin lidx idx1 by simp
  have follows2: "\<forall>l\<in>set ?m. l \<in> set (map fst full2) \<longrightarrow> signal_at full2 l = copy_at sig2 l"
    using fill_block_short(2,5) [OF short r2] by simp
  have follows3: "\<forall>l\<in>set ?m. l \<in> set (map fst full') \<longrightarrow> signal_at full' l = copy_at sig' l"
    by (rule fill_blocks_follows [OF r3 follows2])
  from k lB have "?l \<notin> set (concat (map snd B))" by auto
  then have c3: "copy_at sig' ?l = copy_at sig2 ?l"
    using fill_blocks_frame [OF r3, of ?l] by simp
  from follows3 lm lidx idx3 have "signal_at full' ?l = copy_at sig' ?l" by simp
  also have "\<dots> = signal_at full (?l - int L)" using c3 c2 src by simp
  also from room have "?l - int L = int (b - L + k)" by simp
  finally show ?thesis .
qed

theorem short_block_copies_preceding_block_witness:
  "fill_missing_signal_values Strict
     [(0, \<lparr>meas_sig_str = Some (7::int), status = Some ''ok'', date_time = Some 100\<rparr>),
      (1, \<lparr>meas_sig_str = Some 8, status = Some ''ok'', date_time = Some 101\<rparr>),
      (2, \<lparr>meas_sig_str = None, status = None, date_time = Some 102\<rparr>),
      (3, \<lparr>meas_sig_str = None, status = None, date_time = Some 103\<rparr>),
      (4, \<lparr>meas_sig_str = Some 9, status = Some ''ok'', date_time = Some 104\<rparr>)] [2, 3] =
   Inr [(0, \<lparr>meas_sig_str = Some 7, status = Some ''ok'', date_time = Some 100\<rparr>),
        (1, \<lparr>meas_sig_str = Some 8, status = Some ''ok'', date_time = Some 101\<rparr>),
        (2, \<lparr>meas_sig_str = Some 7, status = None, date_time = Some 102\<rparr>),
        (3, \<lparr>meas_sig_str = Some 8, status = None, date_time = Some 103\<rparr>),
        (4, \<lparr>meas_sig_str = Some 9, status = Some ''ok'', date_time = Some 104\<rparr>)]
   \<and> signal_at
     [(0, \<lparr>meas_sig_str = Some (7::int), status = Some ''ok'', date_time = Some 100\<rparr>),
      (1, \<lparr>meas_sig_str = Some 8, status = Some ''ok'', date_time = Some 101\<rparr>),
      (2, \<lparr>meas_sig_str = Some 7, status = None, date_time = Some 102\<rparr>),
      (3, \<lparr>meas_sig_str = Some 8, status = None, date_time = Some 103\<rparr>),
      (4, \<lparr>meas_sig_str = Some 9, status = Some ''ok'', date_time = Some 104\<rparr>)] 3 = Some 8"
proof -
  let ?full = "[(0, \<lparr>meas_sig_str = Some (7::int), status = Some ''ok'', date_time = Some 100\<rparr>),
      (1, \<lparr>meas_sig_str = Some 8, status = Some ''ok'', date_time = Some 101\<rparr>),
      (2, \<lparr>meas_sig_str = None, status = None, date_time = Some 102\<rparr>),
      (3, \<lparr>meas_sig_str = None, status = None, date_time = Some 103\<rparr>),
      (4, \<lparr>meas_sig_str = Some 9, status = Some ''ok'', date_time = Some 104\<rparr>)]"
  let ?full' = "[(0, \<lparr>meas_sig_str = Some (7::int), status = Some ''ok'', date_time = Some 100\<rparr>),
        (1, \<lparr>meas_sig_str = Some 8, status = Some ''ok'', date_time = Some 101\<rparr>),
        (2, \<lparr>meas_sig_str = Some 7, status = None, date_time = Some 102\<rparr>),
        (3, \<lparr>meas_sig_str = Some 8, status = None, date_time = Some 103\<rparr>),
        (4, \<lparr>meas_sig_str = Some 9, status = Some ''ok'', date_time = Some 104\<rparr>)]"
  have r: "fill_missing_signal_values Strict ?full [2, 3] = Inr ?full'"
    by code_simp
  have dense: "map fst ?full = map int [0..<5]"
    by (simp add: upt_rec)
  have inside: "\<forall>i. 2 \<le> i \<and> i < 2 + 2 \<longrightarrow> int i \<in> set [2, 3]"
  proof (intro allI impI)
    fix i :: nat assume "2 \<le> i \<and> i < 2 + 2"
    then have "i = 2 \<or> i = 3" by arith
    then show "int i \<in> set [2, 3]" by auto
  qed
  have measured: "\<forall>i. 2 - 2 \<le> i \<and> i < 2 \<longrightarrow> int i \<notin> set [2, 3]"
    by auto
  have "signal_at ?full' (int (2 + 1)) = signal_at ?full (int (2 - 2 + 1))"
    by (rule short_block_copies_preceding_block [OF dense _ _ _ inside _ _ measured r]) simp_all
  moreover have "signal_at ?full (int (2 - 2 + 1)) = Some 8"
    by (simp add: signal_at_def)
  ultimately have "signal_at ?full' 3 = Some 8" by simp
  with r show ?thesis by simp
qed

lemma long_block_unset_rows:
  assumes dense: "map fst full = map int [0..<n]"
    and len: "b + L \<le> n" "300 < L"
    and inside: "\<forall>i. b \<le> i \<and> i < b + L \<longrightarrow> int i \<in> set missing_secs"
    and before: "b = 0 \<or> int (b - 1) \<notin> set missing_secs"
    and after: "b + L = n \<or> int (b + L) \<notin> set missing_secs"
    and unset: "\<forall>l\<in>set missing_secs. signal_at full l = None"
    and result: "fill_missing_signal_values policy full missing_secs = Inr full'"
    and k: "k < L"
  shows "signal_at full' (int (b + k)) = None"
proof -
  let ?m = missing_secs
  let ?sig0 = "sig_str_df_init full ?m"
  let ?ls = "map int [b..<b + L]"
  from len have pos: "0 < L" by simp
  from missing_block_group [OF dense len(1) pos inside before after] obtain A i B where
    groups: "groupby_block_newcol ?sig0 = A @ [((i, - 1000), ?ls)] @ B"
    and l1: "concat (map snd A) = map int [0..<b]"
    and l2: "concat (map snd B) = map int [b + L..<n]"
    by blast
  from fill_missing_signal_values_Inr [OF result] obtain sig' where
    run: "fill_blocks policy ?m (A @ [((i, - 1000), ?ls)] @ B) (?sig0, full) = Inr (sig', full')"
    unfolding groups by blast
  have apart: "\<forall>g\<in>set (A @ [((i, - 1000), ?ls)] @ B).
                 set (snd g) \<inter> set ?ls = {} \<or> snd (fst g) \<noteq> - 1000 \<or> 300 < length (snd g)"
  proof
    fix g assume "g \<in> set (A @ [((i, - 1000), ?ls)] @ B)"
    then consider "g \<in> set A" | "g = ((i, - 1000), ?ls)" | "g \<in> set B" by auto
    then show "set (snd g) \<inter> set ?ls = {} \<or> snd (fst g) \<noteq> - 1000 \<or> 300 < length (snd g)"
    proof cases
      case 1
      then have "set (snd g) \<subseteq> set (concat (map snd A))" by auto
      with l1 show ?thesis by auto
    next
      case 2
      with len(2) show ?thesis by simp
    next
      case 3
      then have "set (snd g) \<subseteq> set (concat (map snd B))" by auto
      with l2 show ?thesis by auto
    qed
  qed
  have start: "\<forall>l\<in>set ?ls. copy_at ?sig0 l = None \<and> signal_at full l = None"
    using inside unset by (auto simp: copy_at_init)
  have "\<forall>l\<in>set ?ls. copy_at sig' l = None \<and> signal_at full' l = None"
    by (rule fill_blocks_keeps_unset [OF run apart start])
  moreover from k have "b + k \<in> set [b..<b + L]" by simp
  then have "int (b + k) \<in> set ?ls" unfolding set_map by (rule imageI)
  ultimately show ?thesis by blast
qed

lemma check_filled_nonempty: "full \<noteq> [] \<Longrightarrow> check_filled full = Inr full"
  by (simp add: check_filled_def check_if_data_frame_is_valid_def)

lemma fill_blocks_no_short:
  "\<forall>g\<in>set gs. snd (fst g) \<noteq> - 1000 \<or> 300 < length (snd g) \<Longrightarrow>
     \<exists>sig'. fill_blocks policy m gs (sig, full) = Inr (sig', full)"
proof (induction gs arbitrary: sig)
  case Nil
  then show ?case by simp
next
  case (Cons g gs)
  obtain i j ls where g: "g = ((i, j), ls)" by (cases g) auto
  from Cons.prems g have "j \<noteq> - 1000 \<or> 300 < length ls" by simp
  then obtain sig1 where "fill_block policy m (sig, full) g = Inr (sig1, full)"
    using g by (cases "j = - 1000") (auto simp: fill_block_other fill_block_long)
  moreover from Cons.prems have "\<forall>g\<in>set gs. snd (fst g) \<noteq> - 1000 \<or> 300 < length (snd g)" by simp
  from Cons.IH [OF this, of sig1] obtain sig' where
    "fill_blocks policy m gs (sig1, full) = Inr (sig', full)" by blast
  ultimately show ?case by auto
qed

lemma measured_labels_group:
  assumes "g \<in> set (groupby_block_newcol (sig_str_df_init full m))"
    and "set (snd g) \<inter> set m = {}"
  shows "snd (fst g) \<noteq> - 1000"
proof
  assume j: "snd (fst g) = - 1000"
  from groupby_group_rows(1) [OF assms(1)] obtain l where l: "l \<in> set (snd g)"
    by (cases "snd g") auto
  from groupby_group_rows(2) [OF assms(1) l] obtain r where
    "(l, r) \<in> set (sig_str_df_init full m)" "newcol r = snd (fst g)"
    by blast
  with j newcol_init [of l r full m] have "l \<in> set m"
    by (auto split: if_splits)
  with l assms(2) show False by blast
qed

lemma single_long_gap_returns:
  assumes dense: "map fst full = map int [0..<n]"
    and len: "b + L \<le> n" "300 < L"
    and only: "set missing_secs = int ` {b..<b + L}"
  shows "fill_missing_signal_values policy full missing_secs = Inr full"
proof -
  let ?m = missing_secs
  let ?ls = "map int [b..<b + L]"
  let ?groups = "groupby_block_newcol (sig_str_df_init full ?m)"
  from len have pos: "0 < L" by simp
  from only have inside: "\<forall>i. b \<le> i \<and> i < b + L \<longrightarrow> int i \<in> set ?m" by auto
  from only have before: "b = 0 \<or> int (b - 1) \<notin> set ?m" by auto
  from only have after: "b + L = n \<or> int (b + L) \<notin> set ?m" by auto
  from missing_block_group [OF dense len(1) pos inside before after] obtain A i B where
    groups: "?groups = A @ [((i, - 1000), ?ls)] @ B"
    and lA: "concat (map snd A) = map int [0..<b]"
    and lB: "concat (map snd B) = map int [b + L..<n]"
    by blast
  have "snd (fst g) \<noteq> - 1000 \<or> 300 < length (snd g)" if g: "g \<in> set ?groups" for g
  proof -
    from g groups consider "g \<in> set A" | "g = ((i, - 1000), ?ls)" | "g \<in> set B" by auto
    then show ?thesis
    proof cases
      case 1
      then have "set (snd g) \<subseteq> set (concat (map snd A))" by auto
      with lA only have "set (snd g) \<inter> set ?m = {}" by auto
      with measured_labels_group [OF g] show ?thesis by simp
    next
      case 2
      with len(2) show ?thesis by simp
    next
      case 3
      then have "set (snd g) \<subseteq> set (concat (map snd B))" by auto
      with lB only have "set (snd g) \<inter> set ?m = {}" by auto
      with measured_labels_group [OF g] show ?thesis by simp
    qed
  qed
  then have "\<forall>g\<in>set ?groups. snd (fst g) \<noteq> - 1000 \<or> 300 < length (snd g)" by blast
  from fill_blocks_no_short [OF this] obtain sig' where
    "fill_blocks policy ?m ?groups (sig_str_df_init full ?m, full) = Inr (sig', full)"
    by blast
  then show ?thesis
    by (simp add: fill_missing_signal_values_def Let_def)
qed

lemma fill_missing_signal_values_index:
  assumes "fill_missing_signal_values policy full m = Inr full'"
  shows "map fst full' = map fst full"
proof -
  from fill_missing_signal_values_Inr [OF assms] obtain sig' where
    "fill_blocks policy m (groupby_block_newcol (sig_str_df_init full m))
       (sig_str_df_init full m, full) = Inr (sig', full')"
    by blast
  from fill_blocks_frame [OF this, of 0] show ?thesis by simp
qed

text \<open>
  Claim C4. Let the rows \<open>b, \<dots>, b + L - 1\<close> be a block of missing seconds with
  \<open>L > 300\<close>, whose rows hold no signal value when gap filling starts (as the rows
  added by the reindexing do). The loop body for this block returns normally and leaves
  the frame as it is; when gap filling returns, every row of the block still holds no
  signal value; and the check at the end of \<^verbatim>\<open>fill_missing_data\<close> returns the frame
  although it holds missing values.
\<close>

theorem long_block_stays_unset:
  assumes dense: "map fst full = map int [0..<n]"
    and len: "b + L \<le> n" "300 < L"
    and inside: "\<forall>i. b \<le> i \<and> i < b + L \<longrightarrow> int i \<in> set missing_secs"
    and before: "b = 0 \<or> int (b - 1) \<notin> set missing_secs"
    and after: "b + L = n \<or> int (b + L) \<notin> set missing_secs"
    and unset: "\<forall>l\<in>set missing_secs. signal_at full l = None"
  shows "fill_block policy missing_secs (sig_str_df, full) ((i, - 1000), map int [b..<b + L]) =
           Inr (loc_set (\<lambda>v r. r\<lparr>block_length := v\<rparr>)
                  (map (\<lambda>l. (l, L)) (map int [b..<b + L])) sig_str_df, full) \<and>
         (\<forall>full'. fill_missing_signal_values policy full missing_secs = Inr full' \<longrightarrow>
            (\<forall>k<L. signal_at full' (int (b + k)) = None) \<and> check_filled full' = Inr full')"
proof (intro conjI allI impI)
  from len(2) show "fill_block policy missing_secs (sig_str_df, full) ((i, - 1000), map int [b..<b + L]) =
           Inr (loc_set (\<lambda>v r. r\<lparr>block_length := v\<rparr>)
                  (map (\<lambda>l. (l, L)) (map int [b..<b + L])) sig_str_df, full)"
    using fill_block_long [of "map int [b..<b + L]" policy missing_secs sig_str_df full i] by simp
next
  fix full' k
  assume r: "fill_missing_signal_values policy full missing_secs = Inr full'" and k: "k < L"
  show "signal_at full' (int (b + k)) = None"
    by (rule long_block_unset_rows [OF dense len inside before after unset r k])
next
  fix full'
  assume r: "fill_missing_signal_values policy full missing_secs = Inr full'"
  from fill_missing_signal_values_index [OF r] dense have "length full' = n"
    by (metis length_map length_upt diff_zero)
  with len have "full' \<noteq> []" by auto
  then show "check_filled full' = Inr full'" by (rule check_filled_nonempty)
qed

lemma map_of_dense_rows:
  "map_of (map (\<lambda>i. (int i, f i)) [0..<n]) (int j) = (if j < n then Some (f j) else None)"
  by (induction n) (auto simp: map_add_def less_Suc_eq split: option.splits)

theorem long_block_stays_unset_witness:
  "fill_missing_signal_values Strict
     (map (\<lambda>i. (int i, \<lparr>meas_sig_str = (if i = 0 then Some (7::int) else None),
                          status = (if i = 0 then Some ''ok'' else None),
                          date_time = Some (100 + int i)\<rparr>)) [0..<303])
     (map int [1..<303]) =
   Inr (map (\<lambda>i. (int i, \<lparr>meas_sig_str = (if i = 0 then Some (7::int) else None),
                          status = (if i = 0 then Some ''ok'' else None),
                          date_time = Some (100 + int i)\<rparr>)) [0..<303])
   \<and> signal_at
     (map (\<lambda>i. (int i, \<lparr>meas_sig_str = (if i = 0 then Some (7::int) else None),
                          status = (if i = 0 then Some ''ok'' else None),
                          date_time = Some (100 + int i)\<rparr>)) [0..<303]) 302 = None
   \<and> check_filled
     (map (\<lambda>i. (int i, \<lparr>meas_sig_str = (if i = 0 then Some (7::int) else None),
                          status = (if i = 0 then Some ''ok'' else None),
                          date_time = Some (100 + int i)\<rparr>)) [0..<303]) =
   Inr (map (\<lambda>i. (int i, \<lparr>meas_sig_str = (if i = 0 then Some (7::int) else None),
                          status = (if i = 0 then Some ''ok'' else None),
                          date_time = Some (100 + int i)\<rparr>)) [0..<303])"
proof -
  let ?f = "\<lambda>i::nat. \<lparr>meas_sig_str = (if i = 0 then Some (7::int) else None),
                          status = (if i = 0 then Some ''ok'' else None),
                          date_time = Some (100 + int i)\<rparr>"
  let ?W = "map (\<lambda>i. (int i, ?f i)) [0..<303]"
  let ?m = "map int [1..<303]"
  have dense: "map fst ?W = map int [0..<303]"
    by (simp add: comp_def)
  have only: "set ?m = int ` {1..<1 + 302}"
    by simp
  have r: "fill_missing_signal_values Strict ?W ?m = Inr ?W"
    by (rule single_long_gap_returns [OF dense _ _ only]) simp_all
  have inside: "\<forall>i. 1 \<le> i \<and> i < 1 + 302 \<longrightarrow> int i \<in> set ?m"
    by auto
  have before: "(1::nat) = 0 \<or> int (1 - 1) \<notin> set ?m"
    by auto
  have unset: "\<forall>l\<in>set ?m. signal_at ?W l = None"
  proof
    fix l assume "l \<in> set ?m"
    then obtain j where j: "l = int j" "1 \<le> j" "j < 303" by auto
    then show "signal_at ?W l = None"
      unfolding signal_at_def j(1) map_of_dense_rows by simp
  qed
  from long_block_stays_unset [OF dense _ _ inside before _ unset, of Strict]
  have "\<forall>full'. fill_missing_signal_values Strict ?W ?m = Inr full' \<longrightarrow>
            (\<forall>k<302. signal_at full' (int (1 + k)) = None) \<and> check_filled full' = Inr full'"
    by simp
  with r have a: "\<forall>k<302. signal_at ?W (int (1 + k)) = None" and c: "check_filled ?W = Inr ?W"
    by blast+
  from a have "301 < (302::nat) \<longrightarrow> signal_at ?W (int (1 + 301)) = None"
    by (rule spec)
  then have "signal_at ?W 302 = None" by simp
  with r c show ?thesis by simp
qed

subsection \<open>The frame that fill\_missing\_data passes on\<close>

text \<open>
  When the seconds of the records are distinct and at least one second is missing,
  \<^verbatim>\<open>fill_missing_data\<close> calls \<^verbatim>\<open>fill_missing_signal_values\<close> with a frame indexed
  by \<open>0, \<dots>, n - 1\<close>, where \<open>n\<close> is the largest second, whose rows at the missing
  seconds hold no signal value and whose other rows hold the value of their record.
  The frame it returns keeps this index, so the largest second itself is not in it.
\<close>

lemma num_seconds_length:
  "num_seconds xs = Inr secs \<Longrightarrow> length secs = length xs"
proof -
  assume a: "num_seconds xs = Inr secs"
  then have nn: "\<not> list_ex (\<lambda>t. t = None) xs"
    by (auto simp: num_seconds_def split: if_splits)
  have "length (concat (map (\<lambda>t. case t of None \<Rightarrow> [] | Some x \<Rightarrow> [x]) ys)) = length ys"
    if "\<not> list_ex (\<lambda>t. t = None) ys" for ys :: "int option list"
    using that by (induction ys) auto
  from this [OF nn] a show ?thesis
    by (auto simp: num_seconds_def Let_def split: if_splits)
qed

lemma signal_at_date_time [simp]:
  "signal_at (loc_set (\<lambda>v r. r\<lparr>date_time := v\<rparr>) vals df) l = signal_at df l"
  by (simp add: signal_at_def map_of_loc_set split: option.splits)

lemma map_of_reindexed:
  "map_of (map (\<lambda>l. (l, f l)) target) l = (if l \<in> set target then Some (f l) else None)"
  by (induction target) auto

lemma fill_missing_data_gap_path:
  assumes secs: "num_seconds (map date_time subject_rows) = Inr secs"
    and dist: "distinct secs"
    and n: "n = nat (Max (set secs))"
    and m: "missing_secs = filter (\<lambda>s. s \<notin> set secs) (map int [0..<n])"
    and ne: "missing_secs \<noteq> []"
  shows "\<exists>stamped.
           fill_missing_data policy subject_rows =
             (case fill_missing_signal_values policy stamped missing_secs of
                Inl e \<Rightarrow> Inl e
              | Inr filled \<Rightarrow> check_filled filled) \<and>
           map fst stamped = map int [0..<n] \<and>
           (\<forall>l\<in>set missing_secs. signal_at stamped l = None) \<and>
           (\<forall>l\<in>set (map int [0..<n]). l \<notin> set missing_secs \<longrightarrow>
              signal_at stamped l = signal_at (zip secs subject_rows) l)"
proof -
  let ?df = "zip secs subject_rows"
  let ?target = "map int [0..<n]"
  let ?re = "map (\<lambda>l. (l, case map_of ?df l of Some r \<Rightarrow> r | None \<Rightarrow> nan_row)) ?target"
  from num_seconds_length [OF secs] have len: "length secs = length subject_rows" by simp
  then have idx: "map fst ?df = secs" by simp
  from dist idx have re: "reindex ?df ?target = Inr ?re"
    by (simp add: reindex_def)
  have tne: "?target \<noteq> []"
  proof
    assume "?target = []"
    with m have "missing_secs = []" by simp
    with ne show False by simp
  qed
  then obtain first where first: "py_min (map (\<lambda>(l, r). date_time r) ?re) = Inr first"
    by (cases ?target) (auto simp: py_min_def)
  let ?stamped = "loc_set (\<lambda>v r. r\<lparr>date_time := v\<rparr>)
      (zip missing_secs (map (\<lambda>x. map_option (\<lambda>t. t + x) first) missing_secs)) ?re"
  from first have st: "fill_missing_time_stamps ?re missing_secs = Inr ?stamped"
    by (simp add: fill_missing_time_stamps_def Let_def)
  have run: "fill_missing_data policy subject_rows =
             (case fill_missing_signal_values policy ?stamped missing_secs of
                Inl e \<Rightarrow> Inl e
              | Inr filled \<Rightarrow> check_filled filled)"
    apply (simp only: fill_missing_data_def Let_def secs sum.case idx n [symmetric]
        m [symmetric] re st)
    using ne apply simp
    done
  have labels: "map fst ?stamped = ?target"
    by (simp add: fst_loc_set comp_def)
  have sig: "signal_at ?stamped l =
               (if l \<in> set ?target then
                  (case map_of ?df l of Some r \<Rightarrow> meas_sig_str r | None \<Rightarrow> None)
                else None)" for l
  proof -
    have s1: "signal_at ?stamped l = signal_at ?re l"
      by (rule signal_at_date_time)
    have s2: "map_of ?re l =
        (if l \<in> set ?target
         then Some (case map_of ?df l of Some r \<Rightarrow> r | None \<Rightarrow> nan_row) else None)"
      by (rule map_of_reindexed)
    have "signal_at ?re l = (case map_of ?re l of None \<Rightarrow> None | Some r \<Rightarrow> meas_sig_str r)"
      by (simp only: signal_at_def)
    also have "\<dots> = (if l \<in> set ?target then
                  (case map_of ?df l of Some r \<Rightarrow> meas_sig_str r | None \<Rightarrow> None)
                else None)"
      unfolding s2 by (simp add: nan_row_def split: option.splits)
    finally show ?thesis
      using s1 by simp
  qed
  have absent: "map_of ?df l = None" if "l \<notin> set secs" for l
    using that idx by (metis map_of_absent)
  have unset: "\<forall>l\<in>set missing_secs. signal_at ?stamped l = None"
  proof
    fix l assume "l \<in> set missing_secs"
    with m have t: "l \<in> set ?target" and a: "l \<notin> set secs" by auto
    show "signal_at ?stamped l = None"
      by (simp only: sig [of l] t absent [OF a] if_True option.case)
  qed
  have kept: "\<forall>l\<in>set ?target. l \<notin> set missing_secs \<longrightarrow>
                signal_at ?stamped l = signal_at ?df l"
  proof (intro ballI impI)
    fix l assume t: "l \<in> set ?target" and "l \<notin> set missing_secs"
    have "signal_at ?stamped l = (case map_of ?df l of Some r \<Rightarrow> meas_sig_str r | None \<Rightarrow> None)"
      by (simp only: sig [of l] t if_True)
    also have "\<dots> = signal_at ?df l"
      by (simp only: signal_at_def split: option.splits)
    finally show "signal_at ?stamped l = signal_at ?df l" .
  qed
  from run labels unset kept show ?thesis by blast
qed

lemma fill_missing_data_gap_index:
  assumes "num_seconds (map date_time subject_rows) = Inr secs"
    and "distinct secs"
    and "filter (\<lambda>s. s \<notin> set secs) (map int [0..<nat (Max (set secs))]) \<noteq> []"
    and "fill_missing_data policy subject_rows = Inr full'"
  shows "map fst full' = map int [0..<nat (Max (set secs))]"
proof -
  let ?m = "filter (\<lambda>s. s \<notin> set secs) (map int [0..<nat (Max (set secs))])"
  from fill_missing_data_gap_path [OF assms(1,2) refl refl assms(3), of policy]
  obtain stamped where
    run: "fill_missing_data policy subject_rows =
            (case fill_missing_signal_values policy stamped ?m of
               Inl e \<Rightarrow> Inl e
             | Inr filled \<Rightarrow> check_filled filled)"
    and idx: "map fst stamped = map int [0..<nat (Max (set secs))]"
    by blast
  from run assms(4) obtain filled where
    f: "fill_missing_signal_values policy stamped ?m = Inr filled"
    and c: "check_filled filled = Inr full'"
    by (auto split: sum.splits)
  from c have "full' = filled"
    by (auto simp: check_filled_def split: sum.splits error.splits)
  with fill_missing_signal_values_index [OF f] idx show ?thesis by simp
qed

subsection \<open>The last second of the recording\<close>

text \<open>
  Claim C1. Two records two seconds apart: the largest second is 2, one second is
  missing. The frame returned has the seconds 0 and 1 only; the record at second 2 is
  gone (for either reading of \<^verbatim>\<open>.loc\<close>). With a third record at the second
  between them no second is missing, and the frame returned has the seconds 0, 1
  and 2.
\<close>

theorem fill_missing_data_drops_last_second:
  "fill_missing_data Strict
     [\<lparr>meas_sig_str = Some (7::int), status = Some ''ok'', date_time = Some 100\<rparr>,
      \<lparr>meas_sig_str = Some 9, status = Some ''ok'', date_time = Some 102\<rparr>] =
   Inr [(0, \<lparr>meas_sig_str = Some 7, status = Some ''ok'', date_time = Some 100\<rparr>),
        (1, \<lparr>meas_sig_str = Some 7, status = None, date_time = Some 101\<rparr>)]
   \<and> fill_missing_data Reindexing
     [\<lparr>meas_sig_str = Some (7::int), status = Some ''ok'', date_time = Some 100\<rparr>,
      \<lparr>meas_sig_str = Some 9, status = Some ''ok'', date_time = Some 102\<rparr>] =
   Inr [(0, \<lparr>meas_sig_str = Some 7, status = Some ''ok'', date_time = Some 100\<rparr>),
        (1, \<lparr>meas_sig_str = Some 7, status = None, date_time = Some 101\<rparr>)]
   \<and> fill_missing_data Strict
     [\<lparr>meas_sig_str = Some (7::int), status = Some ''ok'', date_time = Some 100\<rparr>,
      \<lparr>meas_sig_str = Some 8, status = Some ''ok'', date_time = Some 101\<rparr>,
      \<lparr>meas_sig_str = Some 9, status = Some ''ok'', date_time = Some 102\<rparr>] =
   Inr [(0, \<lparr>meas_sig_str = Some 7, status = Some ''ok'', date_time = Some 100\<rparr>),
        (1, \<lparr>meas_sig_str = Some 8, status = Some ''ok'', date_time = Some 101\<rparr>),
        (2, \<lparr>meas_sig_str = Some 9, status = Some ''ok'', date_time = Some 102\<rparr>)]"
  by code_simp

subsection \<open>A missing block with too few rows before it\<close>

text \<open>
  Claim C5. A missing block at the very start of the frame passed to
  \<^verbatim>\<open>fill_missing_signal_values\<close> looks up the labels before the index, here
  \<open>- 1\<close>, and the lookup raises \<^verbatim>\<open>KeyError\<close> under either reading of \<^verbatim>\<open>.loc\<close>.
  Through \<^verbatim>\<open>fill_missing_data\<close> second 0 is always present, and a block with fewer
  rows before it than its length arises from two records three seconds apart: the
  lookup of the labels \<open>- 1\<close> and \<open>0\<close> raises \<^verbatim>\<open>KeyError\<close> under the strict
  reading, and under the reindexing reading fills the second row of the block with the
  value of second 0.
\<close>

theorem short_preceding_block_lookup:
  "fill_missing_signal_values Strict
     [(0, nan_row),
      (1, \<lparr>meas_sig_str = Some (6::int), status = Some ''ok'', date_time = Some 101\<rparr>)] [0] =
   Inl KeyError
   \<and> fill_missing_signal_values Reindexing
     [(0, nan_row),
      (1, \<lparr>meas_sig_str = Some (6::int), status = Some ''ok'', date_time = Some 101\<rparr>)] [0] =
   Inl KeyError
   \<and> fill_missing_data Strict
     [\<lparr>meas_sig_str = Some (7::int), status = Some ''ok'', date_time = Some 100\<rparr>,
      \<lparr>meas_sig_str = Some 9, status = Some ''ok'', date_time = Some 103\<rparr>] =
   Inl KeyError
   \<and> fill_missing_data Reindexing
     [\<lparr>meas_sig_str = Some (7::int), status = Some ''ok'', date_time = Some 100\<rparr>,
      \<lparr>meas_sig_str = Some 9, status = Some ''ok'', date_time = Some 103\<rparr>] =
   Inr [(0, \<lparr>meas_sig_str = Some 7, status = Some ''ok'', date_time = Some 100\<rparr>),
        (1, \<lparr>meas_sig_str = None, status = None, date_time = Some 101\<rparr>),
        (2, \<lparr>meas_sig_str = Some 7, status = None, date_time = Some 102\<rparr>)]"
  by code_simp

section \<open>Day partition\<close>

lemma day_onsets_loop_sequence:
  "\<exists>n. day_onsets_loop e b ds =
          (ds @ map (\<lambda>k. b + 86400 * int k) [0..<n], b + 86400 * int n) \<and>
        (\<forall>k<n. b + 86400 * int k < e) \<and> e \<le> b + 86400 * int n"
proof (induction e b ds rule: day_onsets_loop.induct)
  case (1 e b ds)
  show ?case
  proof (cases "b < e")
    case False
    then have "day_onsets_loop e b ds = (ds @ map (\<lambda>k. b + 86400 * int k) [0..<0], b + 86400 * int 0)"
      by (simp add: day_onsets_loop.simps)
    moreover from False have "e \<le> b + 86400 * int 0" by simp
    ultimately show ?thesis by blast
  next
    case True
    from 1 [OF True] obtain n where
      r: "day_onsets_loop e (b + 24 * 3600) (ds @ [b]) =
            ((ds @ [b]) @ map (\<lambda>k. b + 24 * 3600 + 86400 * int k) [0..<n],
             b + 24 * 3600 + 86400 * int n)"
      and lt: "\<forall>k<n. b + 24 * 3600 + 86400 * int k < e"
      and ge: "e \<le> b + 24 * 3600 + 86400 * int n"
      by blast
    have m: "map (\<lambda>k. b + 86400 * int k) [0..<Suc n] =
               b # map (\<lambda>k. b + 24 * 3600 + 86400 * int k) [0..<n]"
      by (simp add: map_upt_Suc del: upt_Suc)
    have "day_onsets_loop e b ds =
            (ds @ map (\<lambda>k. b + 86400 * int k) [0..<Suc n], b + 86400 * int (Suc n))"
      using True r by (subst day_onsets_loop.simps) (simp add: m del: upt_Suc)
    moreover have "\<forall>k<Suc n. b + 86400 * int k < e"
    proof (intro allI impI)
      fix k assume "k < Suc n"
      then show "b + 86400 * int k < e"
        using True lt by (cases k) auto
    qed
    moreover from ge have "e \<le> b + 86400 * int (Suc n)" by simp
    ultimately show ?thesis by blast
  qed
qed

text \<open>
  Claim C9. For a frame with a time stamp at label 0 and at its last label, the onsets
  computed are the first time stamp followed by the noon boundaries: the first boundary
  is noon of the local calendar date of the start when the local hour of the start is
  less than 12 and noon of the next calendar date otherwise, each further boundary is
  24 hours after the one before, and the boundaries collected are exactly those before
  the last time stamp. The loop ends, with the first boundary that is not before it.
\<close>

theorem day_onsets_start_and_noons:
  assumes "map_of full_subject_df 0 = Some first_row"
    and "date_time first_row = Some start"
    and "map_of full_subject_df (int (length full_subject_df) - 1) = Some last_row"
    and "date_time last_row = Some end_of_time"
  shows "\<exists>n. find_day_onsets z full_subject_df =
               Inr (start # map (\<lambda>k. first_noon z start + 86400 * int k) [0..<n],
                    first_noon z start + 86400 * int n) \<and>
             (\<forall>k<n. first_noon z start + 86400 * int k < end_of_time) \<and>
             end_of_time \<le> first_noon z start + 86400 * int n \<and>
             first_noon z start =
               tz_localize z (((start + utcoffset z start) div 86400 +
                                (if hour z start < 12 then 0 else 1)) * 86400 + 12 * 3600)"
proof -
  from day_onsets_loop_sequence [of end_of_time "first_noon z start" "[start]"]
  obtain n where
    "day_onsets_loop end_of_time (first_noon z start) [start] =
       ([start] @ map (\<lambda>k. first_noon z start + 86400 * int k) [0..<n],
        first_noon z start + 86400 * int n)"
    and "\<forall>k<n. first_noon z start + 86400 * int k < end_of_time"
    and "end_of_time \<le> first_noon z start + 86400 * int n"
    by blast
  moreover have "first_noon z start =
      tz_localize z (((start + utcoffset z start) div 86400 +
                       (if hour z start < 12 then 0 else 1)) * 86400 + 12 * 3600)"
    by (simp add: first_noon_def date_noon_def algebra_simps)
  ultimately show ?thesis
    using assms by (auto simp: find_day_onsets_def)
qed

theorem day_onsets_start_and_noons_witness:
  "find_day_onsets pst
     [(0, \<lparr>meas_sig_str = Some (1::int), status = Some ''ok'', date_time = Some 71999\<rparr>),
      (1, \<lparr>meas_sig_str = Some 2, status = Some ''ok'', date_time = Some 72000\<rparr>),
      (2, \<lparr>meas_sig_str = Some 3, status = Some ''ok'', date_time = Some 244801\<rparr>)] =
   Inr ([71999, 72000, 158400, 244800], 331200)"
proof -
  let ?df = "[(0, \<lparr>meas_sig_str = Some (1::int), status = Some ''ok'', date_time = Some 71999\<rparr>),
      (1, \<lparr>meas_sig_str = Some 2, status = Some ''ok'', date_time = Some 72000\<rparr>),
      (2, \<lparr>meas_sig_str = Some 3, status = Some ''ok'', date_time = Some 244801\<rparr>)]"
  have noon: "first_noon pst 71999 = 72000"
    by (simp add: first_noon_def date_noon_def hour_def pst_def)
  from day_onsets_start_and_noons [of ?df
      "\<lparr>meas_sig_str = Some 1, status = Some ''ok'', date_time = Some 71999\<rparr>" 71999
      "\<lparr>meas_sig_str = Some 3, status = Some ''ok'', date_time = Some 244801\<rparr>" 244801 pst]
  obtain n where
    r: "find_day_onsets pst ?df =
          Inr (71999 # map (\<lambda>k. 72000 + 86400 * int k) [0..<n], 72000 + 86400 * int n)"
    and lt: "\<forall>k<n. 72000 + 86400 * int k < 244801"
    and ge: "(244801::int) \<le> 72000 + 86400 * int n"
    unfolding noon by auto
  from ge have "3 \<le> n" by simp
  moreover have "n \<le> 3"
  proof (rule ccontr)
    assume "\<not> n \<le> 3"
    then have "3 < n" by simp
    with lt have "72000 + 86400 * int 3 < (244801::int)" by blast
    then show False by simp
  qed
  ultimately have "n = 3" by simp
  with r show ?thesis by (simp add: upt_rec)
qed

text \<open>
  Claim C3. Two records one second apart, the second of them at local noon (zone
  \<open>pst\<close>): gap filling returns them as they are, the first noon boundary is the last
  time stamp, so the loop collects no boundary, and the last record is in no mask: its
  day number stays unset.
\<close>

theorem last_record_on_noon_boundary_gets_no_day:
  "fill_missing_data Strict
     [\<lparr>meas_sig_str = Some (1::int), status = Some ''ok'', date_time = Some 71999\<rparr>,
      \<lparr>meas_sig_str = Some 2, status = Some ''ok'', date_time = Some 72000\<rparr>] =
   Inr [(0, \<lparr>meas_sig_str = Some 1, status = Some ''ok'', date_time = Some 71999\<rparr>),
        (1, \<lparr>meas_sig_str = Some 2, status = Some ''ok'', date_time = Some 72000\<rparr>)]
   \<and> hour pst 71999 = 11 \<and> first_noon pst 71999 = 72000
   \<and> divide_to_24_hour_periods pst
     [(0, \<lparr>meas_sig_str = Some (1::int), status = Some ''ok'', date_time = Some 71999\<rparr>),
      (1, \<lparr>meas_sig_str = Some 2, status = Some ''ok'', date_time = Some 72000\<rparr>)] =
   Inr [((0, \<lparr>meas_sig_str = Some 1, status = Some ''ok'', date_time = Some 71999\<rparr>), Some 1),
        ((1, \<lparr>meas_sig_str = Some 2, status = Some ''ok'', date_time = Some 72000\<rparr>), None)]"
  by code_simp

end
